theory Spec2Isabelle
  imports Main "HOL-Library.Word"
begin

unbundle bit_operations_syntax

section \<open>The brains interpreter (brains4.c): data model\<close>

text \<open>
  The constants of the C source. They are macros there, so they are abbreviations here.
  A C character constant is the \<open>int\<close> value of the character: \<open>ord CHR ''+''\<close> is \<open>'+'\<close>.
\<close>

abbreviation (input) ord :: "char \<Rightarrow> int" where "ord c \<equiv> of_char c"

abbreviation (input) DMEM :: int where "DMEM \<equiv> 65536"
abbreviation (input) DMASK :: int where "DMASK \<equiv> DMEM - 1"
abbreviation (input) IMASK :: int where "IMASK \<equiv> 255"
abbreviation (input) SHIFT :: nat where "SHIFT \<equiv> 8"
abbreviation (input) SCHEDULE_PROCESS :: int where "SCHEDULE_PROCESS \<equiv> 1"
abbreviation (input) SCHEDULE_THREAD :: int where "SCHEDULE_THREAD \<equiv> 2"
abbreviation (input) NOPROC :: int where "NOPROC \<equiv> - 1"
abbreviation (input) NUMPROC :: nat where "NUMPROC \<equiv> 62"
abbreviation (input) STACKSIZE :: int where "STACKSIZE \<equiv> 1024"
abbreviation (input) GOOD :: int where "GOOD \<equiv> 0"
abbreviation (input) BAD :: int where "BAD \<equiv> - 2"
abbreviation (input) EOF :: int where "EOF \<equiv> - 1"

text \<open>The three opcode characters that cannot be written inside an Isabelle string.\<close>

abbreviation (input) BREAK :: int where "BREAK \<equiv> ord (CHR 0x27)"
abbreviation (input) CONTINUE :: int where "CONTINUE \<equiv> ord (CHR 0x60)"
abbreviation (input) ZERO :: int where "ZERO \<equiv> ord (CHR 0x22)"

text \<open>
  A data segment is addressed by a \<open>char *\<close>: either the global array \<open>Gsmem\<close> or a block
  that \<open>malloc\<close> returned. A cell is a \<open>char\<close>, eight bits; the contents of all segments are
  one store, so that two threads holding the same segment address see the same cells.
  A TCB carries the address of its own block (\<open>addr\<close>), so that two threads with equal
  fields are still two threads.
  Pointers into the instruction memory \<open>Gimem\<close> are indices (\<open>pc - Gimem\<close>); an instruction
  word is a C \<open>int\<close>, read with \<open>curc & IMASK\<close> and \<open>curc >> SHIFT\<close>. Run lengths and jump
  distances of \<open>2^23\<close> and more overflow the C shift; words are unbounded integers here, so
  the model covers the programs whose immediates fit.
\<close>

datatype seg = Gsmem | Block nat

type_synonym cell = "8 word"
type_synonym pid = nat

record TCB =
  addr :: nat
  par :: pid
  procs :: "nat \<Rightarrow> int option"
  pc :: int
  dp :: int
  cmem :: seg
  stack :: "nat \<Rightarrow> int"
  sp :: int

record PCB =
  readyList :: "TCB list"
  pmem :: "seg option"
  dmem :: seg
  threads :: int

text \<open>What the interpreter writes: bytes on \<open>stdout\<close>, the dump of \<open>#\<close>, the message of a
  call with a full stack, and the message of \<open>Compile\<close> when a process cannot be created.\<close>

datatype event =
    Byte cell
  | Dump int int int "cell list"
  | NoMemForCall
  | NoMemForProcess

text \<open>
  The global data of the program, the two files, and what the C implementation decides:
  \<^item> \<open>malloc_ok k\<close>: whether the \<open>k\<close>-th call of \<open>malloc\<close> returns a block (its address is
    \<open>k\<close>); \<open>live\<close> lists the blocks not yet freed;
  \<^item> \<open>fresh_TCB k\<close>: the indeterminate contents of that block when it becomes a TCB, read
    where \<open>createThread\<close> leaves a part of it unwritten;
  \<^item> \<open>fresh_null k\<close>: whether that block, when it becomes a PCB, holds a null pointer in
    its member \<open>readyList\<close>, which \<open>createProcess\<close> leaves unwritten;
  \<^item> \<open>sizeof_ptr\<close>: \<open>sizeof(int *)\<close>, with \<open>sizeof(int) = 4\<close>;
  \<^item> \<open>char_signed\<close>: whether plain \<open>char\<close> is signed;
  \<^item> \<open>rand_values k\<close>: what the \<open>k\<close>-th call of \<open>rand\<close> returns.
  \<open>lp\<close> is the static variable of \<open>getNextThread\<close>.
\<close>

record machine =
  pListHead :: "pid list"
  tListHead :: "TCB list"
  dpListHead :: "pid list"
  sListHead :: "TCB list"
  PCBs :: "pid \<Rightarrow> PCB option"
  Gimem :: "int \<Rightarrow> int"
  mem :: "seg \<Rightarrow> int \<Rightarrow> cell"
  scheduler :: int
  lp :: "pid option"
  useIn :: "cell list"
  stdout :: "event list"
  malloc_ok :: "nat \<Rightarrow> bool"
  malloc_calls :: nat
  live :: "nat list"
  fresh_TCB :: "nat \<Rightarrow> TCB"
  fresh_null :: "nat \<Rightarrow> bool"
  sizeof_ptr :: nat
  char_signed :: bool
  rand_values :: "nat \<Rightarrow> int"
  rand_calls :: nat

abbreviation (input) sizeof_int :: nat where "sizeof_int \<equiv> 4"

subsection \<open>Characters, cells and blocks\<close>

text \<open>Conversion of an \<open>int\<close> to \<open>char\<close>, and the value of a cell when it is promoted to
  \<open>int\<close> in a comparison.\<close>

definition to_char :: "bool \<Rightarrow> int \<Rightarrow> int" where
  "to_char sg x = (if sg then (x + 128) mod 256 - 128 else x mod 256)"

definition cell_int :: "bool \<Rightarrow> cell \<Rightarrow> int" where
  "cell_int sg c = (if sg then sint c else uint c)"

definition peek :: "machine \<Rightarrow> seg \<Rightarrow> int \<Rightarrow> cell" where
  "peek st m i = mem st m i"

definition poke :: "seg \<Rightarrow> int \<Rightarrow> cell \<Rightarrow> machine \<Rightarrow> machine" where
  "poke m i v st = st\<lparr>mem := (mem st)(m := (mem st m)(i := v))\<rparr>"

definition malloc :: "machine \<Rightarrow> nat option \<times> machine" where
  "malloc st =
     (let k = malloc_calls st; st' = st\<lparr>malloc_calls := k + 1\<rparr>
      in if malloc_ok st k then (Some k, st'\<lparr>live := k # live st\<rparr>) else (None, st'))"

definition free :: "nat \<Rightarrow> machine \<Rightarrow> machine" where
  "free a st = st\<lparr>live := remove1 a (live st)\<rparr>"

text \<open>\<open>memcpy\<close> of \<open>n\<close> bytes into an array whose elements are \<open>sz\<close> bytes wide: the elements
  that lie wholly inside the first \<open>n\<close> bytes are copied, the others keep what the
  destination held.\<close>

definition memcpy :: "nat \<Rightarrow> (nat \<Rightarrow> 'a) \<Rightarrow> (nat \<Rightarrow> 'a) \<Rightarrow> nat \<Rightarrow> (nat \<Rightarrow> 'a)" where
  "memcpy sz dst src n = (\<lambda>i. if (i + 1) * sz \<le> n then src i else dst i)"

subsection \<open>Lists and scheduling\<close>

fun procNum :: "int \<Rightarrow> int" where
  "procNum a =
     (if a \<ge> ord CHR ''0'' \<and> a \<le> ord CHR ''9'' then a - ord CHR ''0''
      else if a \<ge> ord CHR ''A'' \<and> a \<le> ord CHR ''Z'' then a - ord CHR ''A'' + 10
      else if a \<ge> ord CHR ''a'' \<and> a \<le> ord CHR ''z'' then a - ord CHR ''a'' + 36
      else NOPROC)"

text \<open>The intrusive lists of the source are lists here: \<open>appendList\<close> walks to the end and
  links the tail there, \<open>removeFirst\<close> unlinks the head (\<open>None\<close> is \<open>NULL\<close>).\<close>

definition appendList :: "'a list \<Rightarrow> 'a list \<Rightarrow> 'a list" where
  "appendList head tail = head @ tail"

fun removeFirst :: "'a list \<Rightarrow> 'a option \<times> 'a list" where
  "removeFirst [] = (None, [])"
| "removeFirst (c # rest) = (Some c, rest)"

definition on_PCB :: "pid \<Rightarrow> (PCB \<Rightarrow> PCB) \<Rightarrow> machine \<Rightarrow> machine" where
  "on_PCB p f st = st\<lparr>PCBs := (PCBs st)(p := map_option f (PCBs st p))\<rparr>"

definition schedule :: "TCB \<Rightarrow> machine \<Rightarrow> machine" where
  "schedule me st =
     (if scheduler st = SCHEDULE_PROCESS
      then on_PCB (par me) (\<lambda>P. P\<lparr>readyList := appendList (readyList P) [me]\<rparr>) st
      else st\<lparr>tListHead := appendList (tListHead st) [me]\<rparr>)"

text \<open>\<open>createThread\<close> returns \<open>c == NULL\<close>: 0 when the thread was created and scheduled.
  \<open>pr\<close> and \<open>ns\<close> are \<open>None\<close> for \<open>NULL\<close>.\<close>

definition createThread ::
  "pid \<Rightarrow> (nat \<Rightarrow> int option) option \<Rightarrow> int \<Rightarrow> int \<Rightarrow> seg \<Rightarrow> (nat \<Rightarrow> int) option \<Rightarrow> int
     \<Rightarrow> machine \<Rightarrow> int \<times> machine" where
  "createThread npar pr npc ndp ncmem ns nsp st =
     (case malloc st of
        (None, st1) \<Rightarrow> (1, st1)
      | (Some a, st1) \<Rightarrow>
          (let st2 = on_PCB npar (\<lambda>P. P\<lparr>threads := threads P + 1\<rparr>) st1;
               c0 = fresh_TCB st a;
               c = \<lparr>addr = a, par = npar,
                    procs = (case pr of None \<Rightarrow> (\<lambda>i. None)
                             | Some p \<Rightarrow> memcpy (sizeof_ptr st) (procs c0) p (NUMPROC * sizeof_int)),
                    pc = npc,
                    dp = ndp,
                    cmem = ncmem,
                    stack = (case ns of None \<Rightarrow> stack c0
                             | Some s \<Rightarrow> memcpy (sizeof_ptr st) (stack c0) s (nat STACKSIZE * sizeof_int)),
                    sp = nsp\<rparr>
           in (0, schedule c st2)))"

text \<open>
  \<open>createProcess\<close> returns 0 on success and 1 on failure. The code never assigns the new
  PCB's \<open>readyList\<close>: the member holds what \<open>malloc\<close> left in the block. \<open>createThread\<close> calls
  \<open>schedule\<close>, and under the process scheduler \<open>appendList\<close> follows that pointer at
  once. Where it is a null pointer (\<open>fresh_null\<close>) the list is empty; where it is not, the
  behaviour is undefined and \<open>createProcess\<close> has no result here (\<open>None\<close>). Under the
  thread scheduler no function that compiles or runs the programs reads the member, and
  the empty list stands for it. \<open>memcpy\<close> copies the \<open>DMEM\<close> cells of \<open>copymem\<close>.
\<close>

definition createProcess ::
  "seg \<Rightarrow> seg option \<Rightarrow> (nat \<Rightarrow> int option) option \<Rightarrow> int \<Rightarrow> int \<Rightarrow> (nat \<Rightarrow> int) option \<Rightarrow> int
     \<Rightarrow> machine \<Rightarrow> (int \<times> machine) option" where
  "createProcess copymem npmem nprocs npc ndp ns nsp st =
     (case malloc st of
        (None, st1) \<Rightarrow> Some (1, st1)
      | (Some c, st1) \<Rightarrow>
          (case malloc st1 of
             (None, st2) \<Rightarrow> Some (1, free c st2)
           | (Some d, st2) \<Rightarrow>
               (let st3 = st2\<lparr>PCBs := (PCBs st2)(c \<mapsto>
                             \<lparr>readyList = [], pmem = npmem,
                              dmem = Block d, threads = 0\<rparr>)\<rparr>
                in case createThread c nprocs npc ndp (Block d) ns nsp st3 of
                     (r, st4) \<Rightarrow>
                       if r = 0
                       then (if scheduler st = SCHEDULE_PROCESS \<and> \<not> fresh_null st c then None
                             else Some (0, st4\<lparr>mem := (mem st4)(Block d :=
                                             (\<lambda>i. if 0 \<le> i \<and> i < DMEM then mem st4 copymem i
                                                  else mem st4 (Block d) i)),
                                           pListHead := appendList (pListHead st4) [c]\<rparr>))
                       else Some (1, free c (free d (st4\<lparr>PCBs := (PCBs st4)(c := None)\<rparr>))))))"

text \<open>\<open>checkSemaphores\<close> walks the sleep list to the first thread whose data pointer and
  current segment are the given ones, unlinks it and schedules it.\<close>

fun unlink_first :: "('a \<Rightarrow> bool) \<Rightarrow> 'a list \<Rightarrow> 'a option \<times> 'a list" where
  "unlink_first P [] = (None, [])"
| "unlink_first P (this # rest) =
     (if P this then (Some this, rest)
      else (case unlink_first P rest of (r, rest') \<Rightarrow> (r, this # rest')))"

definition checkSemaphores :: "seg \<Rightarrow> int \<Rightarrow> machine \<Rightarrow> machine" where
  "checkSemaphores m ptr st =
     (case unlink_first (\<lambda>this. dp this = ptr \<and> cmem this = m) (sListHead st) of
        (None, _) \<Rightarrow> st
      | (Some this, rest) \<Rightarrow> schedule this (st\<lparr>sListHead := rest\<rparr>))"

section \<open>The quantum evaluator\<close>

text \<open>The loops \<open>while (count--)\<close> of \<open>,\<close> and \<open>^\<close>, for a count that is not negative.\<close>

fun fgetcs :: "nat \<Rightarrow> cell \<Rightarrow> cell list \<Rightarrow> cell \<times> cell list" where
  "fgetcs 0 c inp = (c, inp)"
| "fgetcs (Suc count) c [] = fgetcs count c []"
| "fgetcs (Suc count) c (x # inp) = fgetcs count x inp"

fun wake :: "nat \<Rightarrow> seg \<Rightarrow> int \<Rightarrow> machine \<Rightarrow> machine" where
  "wake 0 m ptr st = st"
| "wake (Suc count) m ptr st =
     wake count m ptr (if sListHead st \<noteq> [] then checkSemaphores m ptr st else st)"

text \<open>
  One turn of the loop of \<open>doQuanta\<close>: fetch, advance the program counter, dispatch.
  \<open>Next c\<close> is the fall out of the \<open>switch\<close> with the local \<open>cost\<close> equal to \<open>c\<close> (the loop then
  does \<open>quanta -= cost\<close>); \<open>Exit r\<close> is \<open>return r\<close>. The result is \<open>None\<close> where C leaves the
  behaviour open: a negative repeat count, a thread whose process is not there, or a \<open>%\<close>
  for which \<open>createProcess\<close> has no result.
\<close>

datatype flow = Next int | Exit int

definition dispatch :: "int \<Rightarrow> int \<Rightarrow> TCB \<Rightarrow> machine \<Rightarrow> (flow \<times> TCB \<times> machine) option" where
  "dispatch cost quanta me0 st =
     (let curc = Gimem st (pc me0);
          me = me0\<lparr>pc := pc me0 + 1\<rparr>;
          opc = curc AND IMASK;
          n = drop_bit SHIFT curc;
          here = peek st (cmem me) (dp me);
          adj = (dp me + 1) AND DMASK
      in
      if opc = ord CHR ''+'' then
        Some (Next cost, me, poke (cmem me) (dp me) (here + word_of_int n) st)
      else if opc = ord CHR ''-'' then
        Some (Next cost, me, poke (cmem me) (dp me) (here - word_of_int n) st)
      else if opc = ord CHR ''>'' then
        Some (Next cost, me\<lparr>dp := (dp me + n) AND DMASK\<rparr>, st)
      else if opc = ord CHR ''<'' then
        Some (Next cost, me\<lparr>dp := (dp me - n) AND DMASK\<rparr>, st)
      else if opc = ord CHR ''.'' then
        (if n < 0 then None
         else Some (Next cost, me, st\<lparr>stdout := stdout st @ replicate (nat n) (Byte here)\<rparr>))
      else if opc = ord CHR '','' then
        (if n < 0 then None
         else (case fgetcs (nat n) here (useIn st) of
                 (c, inp) \<Rightarrow> Some (Next cost, me, poke (cmem me) (dp me) c (st\<lparr>useIn := inp\<rparr>))))
      else if opc = ord CHR ''['' \<or> opc = ord CHR ''('' then
        Some (Next cost, if here = 0 then me\<lparr>pc := pc me + n\<rparr> else me, st)
      else if opc = ord CHR ''}'' then
        Some (Next cost, if here = 0 then me\<lparr>pc := pc me - n\<rparr> else me, st)
      else if opc = ord CHR '']'' then
        Some (Next cost, if here \<noteq> 0 then me\<lparr>pc := pc me - n\<rparr> else me, st)
      else if opc = ord CHR ''{'' then
        Some (Next cost, if here \<noteq> 0 then me\<lparr>pc := pc me + n\<rparr> else me, st)
      else if opc = ord CHR '':'' then
        (let count = procNum (to_char (char_signed st) (Gimem st (pc me)));
             me1 = (if count \<noteq> NOPROC
                    then me\<lparr>procs := (procs me)(nat count := Some (pc me + 1))\<rparr> else me)
         in Some (Next cost, me1\<lparr>pc := pc me1 + n\<rparr>, st))
      else if opc = ord CHR ''|'' then
        Some (Next cost, me\<lparr>pc := pc me + n\<rparr>, st)
      else if opc = ord CHR ''&'' then
        (let st1 = poke (cmem me) adj 1 (poke (cmem me) (dp me) 0 st)
         in case createThread (par me) (Some (procs me)) (pc me) adj
                   (cmem me) (Some (stack me)) (sp me) st1 of
              (r, st2) \<Rightarrow> Some (Next cost, me, if r \<noteq> 0 then poke (cmem me) adj 0 st2 else st2))
      else if opc = ord CHR ''%'' then
        (case PCBs st (par me) of
           None \<Rightarrow> None
         | Some P \<Rightarrow>
             (let st1 = poke (cmem me) adj 1 (poke (cmem me) (dp me) 0 st)
              in case createProcess (cmem me) (Some (dmem P)) (Some (procs me)) (pc me) adj
                        (Some (stack me)) (sp me) st1 of
                   None \<Rightarrow> None
                 | Some (r, st2) \<Rightarrow>
                     Some (Next cost, me, if r \<noteq> 0 then poke (cmem me) adj 0 st2 else st2)))
      else if opc = ord CHR ''^'' then
        (if n < 0 then None
         else Some (Next cost, me,
                wake (nat n) (cmem me) (dp me) (poke (cmem me) (dp me) (here + word_of_int n) st)))
      else if opc = ord CHR ''_'' then
        (if cell_int (char_signed st) here < n
         then Some (Exit 2, me\<lparr>pc := pc me - 1\<rparr>, st)
         else Some (Next cost, me, poke (cmem me) (dp me) (here - word_of_int n) st))
      else if opc = ord CHR ''*'' then Some (Exit 0, me, st)
      else if opc = ord CHR ''@'' then Some (Exit 1, me, st)
      else if opc = ord CHR '')'' then Some (Next cost, me, st)
      else if opc = ord CHR ''='' then Some (Next n, me, st)
      else if opc = ZERO then Some (Next cost, me, poke (cmem me) (dp me) 0 st)
      else if opc = ord CHR ''~'' then
        (case PCBs st (par me) of
           None \<Rightarrow> None
         | Some P \<Rightarrow>
             Some (Next cost,
                   if Some (cmem me) = pmem P then me\<lparr>cmem := dmem P\<rparr>
                   else (case pmem P of None \<Rightarrow> me | Some m \<Rightarrow> me\<lparr>cmem := m\<rparr>),
                   st))
      else if opc = ord CHR '';'' then
        (if sp me = STACKSIZE then Some (Exit 1, me, st)
         else Some (Next cost, me\<lparr>pc := stack me (nat (sp me)), sp := sp me + 1\<rparr>, st))
      else if opc = ord CHR ''#'' then
        Some (Next 0, me,
              st\<lparr>stdout := stdout st @
                   [Dump (pc me) (dp me) quanta
                      (map (\<lambda>k. peek st (cmem me) ((dp me + int k) AND DMASK)) [0..<16])]\<rparr>)
      else
        (let num = procNum (to_char (char_signed st) curc)
         in case (if num \<noteq> NOPROC then procs me (nat num) else None) of
              Some body \<Rightarrow>
                (if Gimem st (pc me) = ord CHR '';'' \<or> Gimem st (pc me) = ord CHR ''$''
                 then Some (Next cost, me\<lparr>pc := body\<rparr>, st)
                 else if sp me = 0
                 then Some (Next cost, me, st\<lparr>stdout := stdout st @ [NoMemForCall]\<rparr>)
                 else Some (Next cost,
                            me\<lparr>stack := (stack me)(nat (sp me - 1) := pc me),
                               sp := sp me - 1, pc := body\<rparr>,
                            st))
            | None \<Rightarrow> Some (Next 0, me, st)))"

text \<open>\<open>doQuanta\<close>: the loop runs while \<open>forever || quanta > 0\<close> and may not come back
  (\<open>None\<close>); it returns the code with the thread and the machine as they are then.\<close>

partial_function (option) doQuanta_loop ::
  "bool \<Rightarrow> int \<Rightarrow> int \<Rightarrow> TCB \<Rightarrow> machine \<Rightarrow> (int \<times> TCB \<times> machine) option" where
  "doQuanta_loop forever cost quanta me st =
     (if forever \<or> quanta > 0 then
        (case dispatch cost quanta me st of
           None \<Rightarrow> None
         | Some (Exit r, me', st') \<Rightarrow> Some (r, me', st')
         | Some (Next cost', me', st') \<Rightarrow> doQuanta_loop forever cost' (quanta - cost') me' st')
      else Some (0, me, st))"

definition doQuanta :: "TCB \<Rightarrow> int \<Rightarrow> machine \<Rightarrow> (int \<times> TCB \<times> machine) option" where
  "doQuanta me quanta st = doQuanta_loop (quanta = 0) 1 quanta me st"

section \<open>The schedulers\<close>

fun deadLocked_from :: "machine \<Rightarrow> pid list \<Rightarrow> int" where
  "deadLocked_from st [] = 1"
| "deadLocked_from st (c # rest) =
     (case PCBs st c of
        None \<Rightarrow> deadLocked_from st rest
      | Some P \<Rightarrow> if readyList P \<noteq> [] then 0 else deadLocked_from st rest)"

definition deadLocked :: "machine \<Rightarrow> int" where
  "deadLocked st = deadLocked_from st (pListHead st)"

text \<open>\<open>makeDead\<close>, compiled without \<open>INFANTICIDE\<close>: under the thread scheduler the process
  leaves the process list for the list of dead processes.\<close>

definition makeDead :: "pid \<Rightarrow> machine \<Rightarrow> machine" where
  "makeDead me st =
     (if scheduler st = SCHEDULE_THREAD
      then st\<lparr>pListHead := remove1 me (pListHead st),
              dpListHead := appendList (dpListHead st) [me]\<rparr>
      else st)"

text \<open>The loop \<open>while (1)\<close> of \<open>getNextThread\<close>: processes without a ready thread go to the
  end of the process list.\<close>

partial_function (option) next_ready :: "machine \<Rightarrow> (pid option \<times> machine) option" where
  "next_ready st =
     (case removeFirst (pListHead st) of
        (None, rest) \<Rightarrow> Some (None, st)
      | (Some a, rest) \<Rightarrow>
          (case PCBs st a of
             None \<Rightarrow> None
           | Some A \<Rightarrow>
               if readyList A = []
               then next_ready (st\<lparr>pListHead := appendList rest [a]\<rparr>)
               else Some (Some a, st\<lparr>pListHead := rest\<rparr>)))"

definition getNextThread :: "machine \<Rightarrow> (TCB option \<times> machine) option" where
  "getNextThread st =
     (if scheduler st = SCHEDULE_PROCESS then
        (case (case lp st of
                 None \<Rightarrow> Some st
               | Some l \<Rightarrow>
                   (case PCBs st l of
                      None \<Rightarrow> None
                    | Some L \<Rightarrow>
                        if threads L = 0
                        then Some (st\<lparr>dpListHead := appendList (dpListHead st) [l]\<rparr>)
                        else Some (st\<lparr>pListHead := appendList (pListHead st) [l]\<rparr>))) of
           None \<Rightarrow> None
         | Some st1 \<Rightarrow>
             if deadLocked st1 \<noteq> 0 then Some (None, st1)
             else (case next_ready st1 of
                     None \<Rightarrow> None
                   | Some (None, st2) \<Rightarrow> Some (None, st2)
                   | Some (Some a, st2) \<Rightarrow>
                       (case PCBs st2 a of
                          None \<Rightarrow> None
                        | Some A \<Rightarrow>
                            (case removeFirst (readyList A) of
                               (b, rest) \<Rightarrow>
                                 Some (b, (on_PCB a (\<lambda>P. P\<lparr>readyList := rest\<rparr>) st2)
                                            \<lparr>lp := Some a\<rparr>)))))
      else (case removeFirst (tListHead st) of
              (b, rest) \<Rightarrow> Some (b, st\<lparr>tListHead := rest\<rparr>)))"

text \<open>What \<open>execute\<close> does with the code that \<open>doQuanta\<close> returned for the thread \<open>curt\<close>.\<close>

definition execute_switch :: "int \<Rightarrow> TCB \<Rightarrow> machine \<Rightarrow> machine" where
  "execute_switch c curt st =
     (if c = 0 then schedule curt st
      else if c = 1 then
        (let st1 = on_PCB (par curt) (\<lambda>P. P\<lparr>threads := threads P - 1\<rparr>) st;
             st2 = (case PCBs st1 (par curt) of
                      None \<Rightarrow> st1
                    | Some P \<Rightarrow> if threads P = 0 then makeDead (par curt) st1 else st1)
         in free (addr curt) st2)
      else if c = 2 then st\<lparr>sListHead := appendList (sListHead st) [curt]\<rparr>
      else st)"

definition rand :: "machine \<Rightarrow> int \<times> machine" where
  "rand st = (rand_values st (rand_calls st), st\<lparr>rand_calls := rand_calls st + 1\<rparr>)"

partial_function (option) execute_loop :: "int \<Rightarrow> TCB option \<Rightarrow> machine \<Rightarrow> machine option" where
  "execute_loop quanta curt0 st =
     (case curt0 of
        None \<Rightarrow> Some st
      | Some curt \<Rightarrow>
          (case (if quanta < 0 then (case rand st of (r, st') \<Rightarrow> ((r AND 127) + 1, st'))
                 else (quanta, st)) of
             (c, st1) \<Rightarrow>
               (case doQuanta curt c st1 of
                  None \<Rightarrow> None
                | Some (c', curt', st2) \<Rightarrow>
                    (case getNextThread (execute_switch c' curt' st2) of
                       None \<Rightarrow> None
                     | Some (nxt, st3) \<Rightarrow> execute_loop quanta nxt st3))))"

definition execute :: "int \<Rightarrow> machine \<Rightarrow> machine option" where
  "execute quanta st =
     (case getNextThread st of
        None \<Rightarrow> None
      | Some (curt, st1) \<Rightarrow> execute_loop quanta curt st1)"

section \<open>The compiler\<close>

text \<open>
  \<open>x << n\<close> on an \<open>int\<close> of 32 bits, which is what an instruction word is. Where the product
  does not fit, the C standard leaves the behaviour open; the implementations keep the low
  32 bits, and so does \<open>shl\<close>. With \<open>SHIFT = 8\<close> that happens from \<open>x = 2 ^ 23\<close>, a run length or
  a jump distance that a program of \<open>IMEM = 2 ^ 24\<close> words can reach.
\<close>

definition shl :: "int \<Rightarrow> nat \<Rightarrow> int" where
  "shl x n = signed_take_bit 31 (push_bit n x)"

text \<open>
  The source file while it is compiled: the bytes not yet read, its end-of-file indicator,
  the static variable \<open>done\<close> of \<open>getNext\<close> (\<open>getNext_done\<close>), and the instruction memory being written.
\<close>

record source =
  mimem :: "int \<Rightarrow> int"
  fin :: "int list"
  feof :: bool
  getNext_done :: int

definition accepted :: "int \<Rightarrow> bool" where
  "accepted c \<longleftrightarrow>
     c \<in> set (map ord ''+-<>.,[]{}(|):;$^_%&#~*@=!'') \<or> c = CONTINUE \<or> c = BREAK \<or>
     (ord CHR ''0'' \<le> c \<and> c \<le> ord CHR ''9'') \<or>
     (ord CHR ''A'' \<le> c \<and> c \<le> ord CHR ''Z'') \<or>
     (ord CHR ''a'' \<le> c \<and> c \<le> ord CHR ''z'')"

definition getNext :: "source \<Rightarrow> int \<times> source" where
  "getNext s =
     (if getNext_done s = GOOD then (EOF, s)
      else (case dropWhile (\<lambda>c. \<not> accepted c) (fin s) of
              [] \<Rightarrow> (EOF, s\<lparr>fin := [], feof := True, getNext_done := GOOD\<rparr>)
            | c # rest \<Rightarrow> (c, s\<lparr>fin := rest\<rparr>)))"

definition unGetNext :: "int \<Rightarrow> source \<Rightarrow> source" where
  "unGetNext c s = (if c \<noteq> EOF then s\<lparr>fin := c # fin s, feof := False\<rparr> else s)"

function backFill :: "(int \<Rightarrow> int) \<Rightarrow> int \<Rightarrow> int \<Rightarrow> (int \<Rightarrow> int)" where
  "backFill m start endp =
     (if start < endp then
        backFill
          (if m start = BREAK
           then m(start := ord CHR ''|'' OR shl (endp - start - 1) SHIFT)
           else if m start = CONTINUE
           then m(start := ord CHR ''|'' OR shl (endp - start - 2) SHIFT)
           else m)
          (start + 1) endp
      else m)"
  by pat_completeness auto
termination
  by (relation "measure (\<lambda>(m, start, endp). nat (endp - start))") auto

declare backFill.simps [simp del]

text \<open>Reading one accepted character takes at least one byte from the file, unless the
  file is at its end.\<close>

lemma getNext_length:
  "getNext s = (c, s1) \<Longrightarrow> length (fin s1) \<le> length (fin s)"
proof -
  assume a: "getNext s = (c, s1)"
  have d: "length (dropWhile (\<lambda>c. \<not> accepted c) (fin s)) \<le> length (fin s)"
    by (rule length_dropWhile_le)
  from a d show ?thesis
    by (auto simp: getNext_def split: if_splits list.splits)
qed

lemma getNext_consumes:
  "getNext s = (c, s1) \<Longrightarrow> c \<noteq> EOF \<Longrightarrow> length (fin s1) < length (fin s)"
proof -
  assume a: "getNext s = (c, s1)" and b: "c \<noteq> EOF"
  have d: "length (dropWhile (\<lambda>c. \<not> accepted c) (fin s)) \<le> length (fin s)"
    by (rule length_dropWhile_le)
  from a b d show ?thesis
    by (auto simp: getNext_def split: if_splits list.splits)
qed

text \<open>The run-length loop: \<open>np = getNext(fin); while (np == cc) { rl++; np = getNext(fin); }\<close>
  and the \<open>unGetNext\<close> after it. It is entered for one of ten characters, never for
  \<open>EOF\<close>; the test for \<open>EOF\<close> is there to make the function total.\<close>

function run_length :: "int \<Rightarrow> int \<Rightarrow> source \<Rightarrow> int \<times> source" where
  "run_length cc rl s =
     (case getNext s of
        (np, s1) \<Rightarrow>
          if np = cc \<and> cc \<noteq> EOF then run_length cc (rl + 1) s1 else (rl, unGetNext np s1))"
  by pat_completeness auto
termination
  by (relation "measure (\<lambda>(cc, rl, s). length (fin s))") (auto dest: getNext_consumes [OF sym])

declare run_length.simps [simp del]

text \<open>
  What the cases \<open>[\<close> and \<open>{\<close> of \<open>recCompile\<close> do once the body is compiled up to \<open>np\<close>:
  patch the two jump distances, then drop the loop, turn it into the zeroing instruction,
  or keep it. The result is the new \<open>cp\<close> and the instruction memory.
\<close>

definition patch_loop :: "int \<Rightarrow> int \<Rightarrow> (int \<Rightarrow> int) \<Rightarrow> (int \<Rightarrow> int)" where
  "patch_loop cp np m =
     (let m2 = m(cp - 1 := m (cp - 1) OR shl (np - cp) SHIFT)
      in m2(np - 1 := m2 (np - 1) OR shl (np - cp) SHIFT))"

definition close_while :: "int \<Rightarrow> int \<Rightarrow> (int \<Rightarrow> int) \<Rightarrow> int \<times> (int \<Rightarrow> int)" where
  "close_while cp np m =
     (let m3 = patch_loop cp np m
      in if cp = 1 \<or> m3 (cp - 2) AND IMASK = ord CHR '']'' \<or>
            m3 (cp - 2) = ZERO \<or> m3 (cp - 2) = ord CHR ''@''
         then (cp - 1, m3)
         else if cp + 2 = np \<and> m3 cp = (ord CHR ''-'' OR push_bit SHIFT 1)
         then (cp, m3(cp - 1 := ZERO))
         else (np, m3))"

definition close_until :: "int \<Rightarrow> int \<Rightarrow> (int \<Rightarrow> int) \<Rightarrow> int \<times> (int \<Rightarrow> int)" where
  "close_until cp np m =
     (let m3 = patch_loop cp np m
      in if cp \<noteq> 1 \<and> m3 (cp - 2) AND IMASK = ord CHR ''}''
         then (cp - 1, m3)
         else (np, m3))"

text \<open>
  The head of the loop of \<open>recCompile\<close>: read a character, count its run if it is one of
  the ten that repeat, and write the word \<open>cc | (rl << SHIFT)\<close> at \<open>cp\<close>.
\<close>

definition next_word :: "int \<Rightarrow> source \<Rightarrow> int \<times> int \<times> source" where
  "next_word cp s0 =
     (case getNext s0 of
        (cc, s1) \<Rightarrow>
          (case (if cc \<in> set (map ord ''+-><^_,.~='') then run_length cc 1 s1 else (0, s1)) of
             (rl, s2) \<Rightarrow> (cc, rl, s2\<lparr>mimem := (mimem s2)(cp := cc OR shl rl SHIFT)\<rparr>)))"

lemma run_length_length:
  "run_length cc rl s = (rl', s') \<Longrightarrow> length (fin s') \<le> length (fin s)"
proof (induction cc rl s arbitrary: rl' s' rule: run_length.induct)
  case (1 cc rl s)
  obtain np s1 where g: "getNext s = (np, s1)" by (cases "getNext s")
  show ?case
  proof (cases "np = cc \<and> cc \<noteq> EOF")
    case True
    with 1 g have "length (fin s') \<le> length (fin s1)"
      by (simp add: run_length.simps [of cc rl s])
    with getNext_length [OF g] show ?thesis by simp
  next
    case False
    with 1(2) g have e: "s' = unGetNext np s1"
      by (auto simp: run_length.simps [of cc rl s])
    show ?thesis
    proof (cases "np = EOF")
      case True
      with e getNext_length [OF g] show ?thesis by (simp add: unGetNext_def)
    next
      case False
      with e getNext_consumes [OF g] show ?thesis by (simp add: unGetNext_def)
    qed
  qed
qed

lemma next_word_length:
  "next_word cp s0 = (cc, rl, s) \<Longrightarrow> length (fin s) \<le> length (fin s0)"
proof -
  assume a: "next_word cp s0 = (cc, rl, s)"
  obtain c1 s1 where g: "getNext s0 = (c1, s1)" by (cases "getNext s0")
  obtain r2 s2 where r:
    "(if c1 \<in> set (map ord ''+-><^_,.~='') then run_length c1 1 s1 else (0, s1)) = (r2, s2)"
    by (cases "if c1 \<in> set (map ord ''+-><^_,.~='') then run_length c1 1 s1 else (0, s1)")
  have "length (fin s2) \<le> length (fin s1)"
    using r run_length_length [of c1 1 s1 r2 s2] by (simp split: if_splits)
  with getNext_length [OF g] have "length (fin s2) \<le> length (fin s0)" by simp
  moreover from a g r have "fin s = fin s2" by (auto simp: next_word_def)
  ultimately show ?thesis by simp
qed

lemma next_word_consumes:
  "next_word cp s0 = (cc, rl, s) \<Longrightarrow> cc \<noteq> EOF \<Longrightarrow> length (fin s) < length (fin s0)"
proof -
  assume a: "next_word cp s0 = (cc, rl, s)" and b: "cc \<noteq> EOF"
  obtain s1 where g: "getNext s0 = (cc, s1)" using a by (cases "getNext s0") (auto simp: next_word_def split: prod.splits)
  obtain r2 s2 where r:
    "(if cc \<in> set (map ord ''+-><^_,.~='') then run_length cc 1 s1 else (0, s1)) = (r2, s2)"
    by (cases "if cc \<in> set (map ord ''+-><^_,.~='') then run_length cc 1 s1 else (0, s1)")
  have "length (fin s2) \<le> length (fin s1)"
    using r run_length_length [of cc 1 s1 r2 s2] by (simp split: if_splits)
  with getNext_consumes [OF g b] have "length (fin s2) < length (fin s0)" by simp
  moreover from a g r have "fin s = fin s2" by (auto simp: next_word_def)
  ultimately show ?thesis by simp
qed

text \<open>
  The \<open>switch\<close> of \<open>recCompile\<close> on the character \<open>cc\<close>, after the word was written and \<open>cp\<close>
  advanced. It either returns (the index or \<open>BAD\<close>, the value that \<open>)\<close> adds to the caller's
  flag through \<open>pi\<close> and that is 0 on every other return, and the source), or goes round
  the loop again with new values of \<open>cp\<close>, \<open>op\<close> and \<open>bf\<close>, or, in the four cases that call
  \<open>recCompile\<close>, enters the body that starts at \<open>cp\<close>.
\<close>

datatype opener = Open_while | Open_until | Open_if | Open_def

datatype action =
    Return int int source
  | Again int int int source
  | Enter opener int source

definition recCompile_switch ::
  "int \<Rightarrow> int \<Rightarrow> int \<Rightarrow> int \<Rightarrow> int \<Rightarrow> int \<Rightarrow> source \<Rightarrow> action" where
  "recCompile_switch cc rl cp op ll bf s =
     (let m = mimem s in
      if cc = ord CHR ''~'' then Again (if rl AND 1 = 0 then cp - 1 else cp) op bf s
      else if cc = ord CHR ''$'' then Again cp op bf (s\<lparr>mimem := m(cp - 1 := ord CHR '';'')\<rparr>)
      else if cc = ord CHR ''['' then Enter Open_while cp s
      else if cc = ord CHR ''{'' then Enter Open_until cp s
      else if cc = ord CHR ''('' then Enter Open_if cp s
      else if cc = ord CHR '':'' then Enter Open_def cp s
      else if cc = ord CHR '']'' then
        (if m op \<noteq> ord CHR ''['' then Return BAD 0 s
         else Return cp 0 (if bf \<noteq> 0 then s\<lparr>mimem := backFill m (op + 1) cp\<rparr> else s))
      else if cc = ord CHR ''}'' then
        (if m op \<noteq> ord CHR ''{'' then Return BAD 0 s
         else Return cp 0 (if bf \<noteq> 0 then s\<lparr>mimem := backFill m (op + 1) cp\<rparr> else s))
      else if cc = ord CHR ''|'' then
        (if m op \<noteq> ord CHR ''('' then Return BAD 0 s
         else Again cp (cp - 1) bf (s\<lparr>mimem := m(op := m op OR shl (cp - op - 1) SHIFT)\<rparr>))
      else if cc = ord CHR '')'' then
        (if m op \<noteq> ord CHR ''('' \<and> m op \<noteq> ord CHR ''|'' then Return BAD 0 s
         else Return (cp - 1) bf
                (s\<lparr>mimem := m(op := m op OR shl (cp - 1 - op - 1) SHIFT)\<rparr>))
      else if cc = ord CHR '';'' then
        (if m op \<noteq> ord CHR '':'' then Return BAD 0 s
         else Return cp 0 (s\<lparr>mimem := m(op := m op OR shl (cp - op - 1) SHIFT)\<rparr>))
      else if cc = CONTINUE \<or> cc = BREAK then
        (if ll = BAD then Return BAD 0 s else Again cp op (bf OR 1) s)
      else if cc = ord CHR ''@'' \<or> cc = ord CHR ''!'' \<or> cc = EOF then
        (if op = - 1 \<or> m op = ord CHR ''@''
         then Return cp 0 (if cc = EOF then s\<lparr>mimem := m(cp - 1 := ord CHR ''@'')\<rparr> else s)
         else Return BAD 0 s)
      else Again cp op bf s)"

text \<open>The argument \<open>ll\<close> of the recursive call, and what the four cases do with the index
  \<open>np\<close> and the flag \<open>f\<close> that the call gave back: the new \<open>cp\<close>, the new \<open>bf\<close>, the source.\<close>

fun body_ll :: "opener \<Rightarrow> int \<Rightarrow> int \<Rightarrow> int" where
  "body_ll Open_while cp ll = cp"
| "body_ll Open_until cp ll = cp"
| "body_ll Open_if cp ll = ll"
| "body_ll Open_def cp ll = BAD"

fun resume :: "opener \<Rightarrow> int \<Rightarrow> int \<Rightarrow> int \<Rightarrow> int \<Rightarrow> source \<Rightarrow> int \<times> int \<times> source" where
  "resume Open_while cp np f bf s =
     (case close_while cp np (mimem s) of (cp', m') \<Rightarrow> (cp', bf, s\<lparr>mimem := m'\<rparr>))"
| "resume Open_until cp np f bf s =
     (case close_until cp np (mimem s) of (cp', m') \<Rightarrow> (cp', bf, s\<lparr>mimem := m'\<rparr>))"
| "resume Open_if cp np f bf s = (np, bf OR f, s)"
| "resume Open_def cp np f bf s = (np, bf, s)"

text \<open>
  \<open>recCompile_loop cp op ll bf s\<close> is the loop \<open>while (1)\<close> of \<open>recCompile\<close> with its local
  variables; \<open>recCompile\<close> enters it with \<open>op = cp - 1\<close> and \<open>bf = 0\<close>.
\<close>

function recCompile_loop ::
  "int \<Rightarrow> int \<Rightarrow> int \<Rightarrow> int \<Rightarrow> source \<Rightarrow> int \<times> int \<times> source" where
  "recCompile_loop cp0 op ll bf s0 =
     (case next_word cp0 s0 of
        (cc, rl, s) \<Rightarrow>
          (case recCompile_switch cc rl (cp0 + 1) op ll bf s of
             Return np f s' \<Rightarrow> (np, f, s')
           | Again cp op' bf' s' \<Rightarrow> recCompile_loop cp op' ll bf' s'
           | Enter k cp s' \<Rightarrow>
               (case recCompile_loop cp (cp - 1) (body_ll k cp ll) 0 s' of
                  (np, f, s3) \<Rightarrow>
                    if np = BAD then (BAD, 0, s3)
                    else (case resume k cp np f bf s3 of
                            (cp', bf', s4) \<Rightarrow> recCompile_loop cp' op ll bf' s4))))"
  by pat_completeness auto

lemma recCompile_switch_goes_on:
  "recCompile_switch cc rl cp op ll bf s = Again cp' op' bf' s' \<or>
   recCompile_switch cc rl cp op ll bf s = Enter k cp' s'
   \<Longrightarrow> fin s' = fin s \<and> cc \<noteq> EOF"
  by (auto simp: recCompile_switch_def Let_def split: if_splits)

lemma resume_fin: "resume k cp np f bf s = (cp', bf', s') \<Longrightarrow> fin s' = fin s"
  by (cases k) (auto split: prod.splits)

lemma recCompile_loop_length:
  "recCompile_loop_dom (cp0, op, ll, bf, s0) \<Longrightarrow> recCompile_loop cp0 op ll bf s0 = (np, f, s')
     \<Longrightarrow> length (fin s') \<le> length (fin s0)"
proof (induction arbitrary: np f s' rule: recCompile_loop.pinduct)
  case (1 cp0 op ll bf s0)
  obtain cc rl s where nw: "next_word cp0 s0 = (cc, rl, s)" by (cases "next_word cp0 s0")
  note l = next_word_length [OF nw]
  note IH = "1.IH" [OF nw [symmetric] refl]
  note P = "1.prems" [unfolded recCompile_loop.psimps [OF "1.hyps"] nw prod.case]
  show ?case
  proof (cases "recCompile_switch cc rl (cp0 + 1) op ll bf s")
    case (Return a b c)
    with P have "s' = c" by simp
    moreover from Return have "fin c = fin s"
      by (auto simp: recCompile_switch_def Let_def split: if_splits)
    ultimately show ?thesis using l by simp
  next
    case (Again cp op' bf' s1)
    with P have "recCompile_loop cp op' ll bf' s1 = (np, f, s')" by simp
    from recCompile_switch_goes_on [where k = Open_if, OF disjI1, OF Again]
    have "fin s1 = fin s" by simp
    with IH(1) [OF Again \<open>recCompile_loop cp op' ll bf' s1 = (np, f, s')\<close>] l
    show ?thesis by simp
  next
    case (Enter k cp s1)
    obtain a b c where n: "recCompile_loop cp (cp - 1) (body_ll k cp ll) 0 s1 = (a, b, c)"
      by (cases "recCompile_loop cp (cp - 1) (body_ll k cp ll) 0 s1")
    from recCompile_switch_goes_on [where op' = 0 and bf' = 0, OF disjI2, OF Enter]
    have f1: "fin s1 = fin s" by simp
    from IH(2) [OF Enter n] f1 l have c: "length (fin c) \<le> length (fin s0)" by simp
    show ?thesis
    proof (cases "a = BAD")
      case True
      with P Enter n c show ?thesis by simp
    next
      case False
      obtain cp' bf' s4 where r: "resume k cp a b bf c = (cp', bf', s4)"
        by (cases "resume k cp a b bf c")
      with P Enter n False have "recCompile_loop cp' op ll bf' s4 = (np, f, s')" by simp
      from IH(3) [OF Enter n [symmetric] refl False r [symmetric] refl this] resume_fin [OF r] c
      show ?thesis by simp
    qed
  qed
qed

lemma next_word_measure:
  "(cc, y) = next_word cp0 s0 \<Longrightarrow> (rl, s) = y \<Longrightarrow> cc \<noteq> EOF \<Longrightarrow> fin s' = fin s \<Longrightarrow>
   ((a, b, c, d, s'), cp0, op, ll, bf, s0) \<in> measure (\<lambda>(cp0, op, ll, bf, s0). length (fin s0))"
  using next_word_consumes [of cp0 s0 cc rl s] by simp

termination recCompile_loop
proof (relation "measure (\<lambda>(cp0, op, ll, bf, s0). length (fin s0))", goal_cases)
  case 1
  show ?case by simp
next
  case (2 cp0 op ll bf s0 x y xa ya x21 x22 x23 x24)
  from recCompile_switch_goes_on [where k = Open_if, OF disjI1, OF 2(3)]
  have "fin x24 = fin ya" "x \<noteq> EOF" by simp_all
  with 2(1,2) show ?case
    by (intro next_word_measure [where cc = x and y = y and rl = xa and s = ya]) simp_all
next
  case (3 cp0 op ll bf s0 x y xa ya x31 x32 x33)
  from recCompile_switch_goes_on [where op' = 0 and bf' = 0, OF disjI2, OF 3(3)]
  have "fin x33 = fin ya" "x \<noteq> EOF" by simp_all
  with 3(1,2) show ?case
    by (intro next_word_measure [where cc = x and y = y and rl = xa and s = ya]) simp_all
next
  case (4 cp0 op ll bf s0 x y xa ya x31 x32 x33 xb yb xc yc xd yd xe ye)
  from recCompile_switch_goes_on [where op' = 0 and bf' = 0, OF disjI2, OF 4(3)]
  have a: "fin x33 = fin ya" "x \<noteq> EOF" by simp_all
  from 4 have "recCompile_loop x32 (x32 - 1) (body_ll x31 x32 ll) 0 x33 = (xb, xc, yc)" by simp
  from recCompile_loop_length [OF 4(9) this] have b: "length (fin yc) \<le> length (fin x33)" .
  from 4 have "resume x31 x32 xb xc bf yc = (xd, xe, ye)" by simp
  from resume_fin [OF this] have c: "fin ye = fin yc" .
  from 4 have "next_word cp0 s0 = (x, xa, ya)" by simp
  from next_word_consumes [OF this a(2)] a b c show ?case by simp
qed

declare recCompile_loop.simps [simp del]

definition recCompile :: "int \<Rightarrow> int \<Rightarrow> source \<Rightarrow> int \<times> int \<times> source" where
  "recCompile cp ll s = recCompile_loop cp (cp - 1) ll 0 s"

text \<open>
  \<open>Compile\<close> returns 1 on success and 0 on failure. Each turn of its loop creates a process
  whose thread starts at \<open>mimem + cp\<close> and then compiles one program; \<open>tsmem\<close> is \<open>Gsmem\<close>.
  After \<open>!\<close> the rest of the file is the input of the programs.
\<close>

partial_function (option) Compile_loop ::
  "int \<Rightarrow> source \<Rightarrow> machine \<Rightarrow> (int \<times> source \<times> machine) option" where
  "Compile_loop cp s st =
     (if \<not> feof s then
        (case createProcess Gsmem (Some Gsmem) None cp 0 None STACKSIZE st of
           None \<Rightarrow> None
         | Some (r, st1) \<Rightarrow>
             (let st2 = (if r \<noteq> 0 then st1\<lparr>stdout := stdout st1 @ [NoMemForProcess]\<rparr> else st1)
              in case recCompile cp BAD s of
                   (np, f, s1) \<Rightarrow>
                     if np = BAD then Some (0, s1, st2)
                     else if mimem s1 (np - 1) = ord CHR ''!''
                     then Some (1, s1\<lparr>mimem := (mimem s1)(np - 1 := ord CHR ''@'')\<rparr>,
                                st2\<lparr>useIn := map word_of_int (fin s1)\<rparr>)
                     else Compile_loop np s1 st2))
      else Some (1, s, st))"

definition Compile :: "int list \<Rightarrow> machine \<Rightarrow> (int \<times> machine) option" where
  "Compile file st =
     (case Compile_loop 0 \<lparr>mimem = Gimem st, fin = file, feof = False, getNext_done = BAD\<rparr> st of
        None \<Rightarrow> None
      | Some (r, s, st1) \<Rightarrow> Some (r, st1\<lparr>Gimem := mimem s\<rparr>))"

section \<open>A machine to run examples on\<close>

text \<open>The machine as it is after one program was loaded: one process (its PCB in block 0,
  its segment in block 1) with one thread (block 2) that is about to run, under the
  thread scheduler, on an implementation with eight-byte pointers and signed \<open>char\<close>.\<close>

definition boot_thread :: TCB where
  "boot_thread =
     \<lparr>addr = 2, par = 0, procs = (\<lambda>i. None), pc = 0, dp = 0, cmem = Block 1,
      stack = (\<lambda>i. 0), sp = STACKSIZE\<rparr>"

definition boot_machine :: machine where
  "boot_machine =
     \<lparr>pListHead = [0], tListHead = [], dpListHead = [], sListHead = [],
      PCBs = Map.empty(0 \<mapsto> \<lparr>readyList = [], pmem = Some Gsmem, dmem = Block 1, threads = 1\<rparr>),
      Gimem = (\<lambda>i. ord CHR ''@''), mem = (\<lambda>m i. 0), scheduler = SCHEDULE_THREAD, lp = None,
      useIn = [], stdout = [], malloc_ok = (\<lambda>k. True), malloc_calls = 3, live = [2, 1, 0],
      fresh_TCB = (\<lambda>k. boot_thread), fresh_null = (\<lambda>k. True), sizeof_ptr = 8,
      char_signed = True,
      rand_values = (\<lambda>k. 0), rand_calls = 0\<rparr>"

section \<open>Instruction words\<close>

lemma and_IMASK: "(x::int) AND IMASK = x mod 256"
  using take_bit_eq_mask [of 8 x] by (simp add: mask_eq_exp_minus_1 take_bit_eq_mod)

lemma and_DMASK: "(x::int) AND DMASK = x mod DMEM"
  using take_bit_eq_mask [of 16 x] by (simp add: mask_eq_exp_minus_1 take_bit_eq_mod)

lemma opcode_of_word: "0 \<le> c \<Longrightarrow> c < 256 \<Longrightarrow> (c OR push_bit SHIFT n) AND IMASK = c"
proof -
  assume a: "0 \<le> c" "c < 256"
  have "(c OR push_bit 8 n) AND 255 = take_bit 8 (c OR push_bit 8 n)"
    by (simp add: take_bit_eq_mask mask_eq_exp_minus_1)
  also have "\<dots> = take_bit 8 c" by (simp add: take_bit_or take_bit_push_bit)
  also have "\<dots> = c" using a by (simp add: take_bit_int_eq_self)
  finally show ?thesis .
qed

lemma immediate_of_word:
  "0 \<le> c \<Longrightarrow> c < 256 \<Longrightarrow> drop_bit SHIFT ((c::int) OR push_bit SHIFT n) = n"
proof -
  assume a: "0 \<le> c" "c < 256"
  have "drop_bit 8 c = 0" using a by (simp add: drop_bit_eq_div)
  then show ?thesis by (simp add: drop_bit_or drop_bit_push_bit)
qed

text \<open>A byte read as a signed \<open>char\<close>.\<close>

lemma sint_byte: "sint (c :: cell) = (if 128 \<le> uint c then uint c - 256 else uint c)"
proof -
  have s: "sint c = (uint c + 128) mod 256 - 128"
    by (simp add: sint_uint signed_take_bit_eq_take_bit_shift take_bit_eq_mod)
  have b: "0 \<le> uint c" "uint c < 256" using uint_lt2p [of c] by simp_all
  show ?thesis
  proof (cases "128 \<le> uint c")
    case True
    with b have "(uint c + 128) mod 256 = uint c - 128"
      using mod_pos_pos_trivial [of "uint c - 128" 256] mod_add_self2 [of "uint c - 128" 256]
      by (simp add: add.commute)
    with s True show ?thesis by simp
  next
    case False
    with b have "(uint c + 128) mod 256 = uint c + 128" by (simp add: mod_pos_pos_trivial)
    with s False show ?thesis by simp
  qed
qed

text \<open>A shift that does not overflow, and the opcode of a word whose immediate did.\<close>

lemma shl_small: "- (2 ^ 23) \<le> x \<Longrightarrow> x < 2 ^ 23 \<Longrightarrow> shl x SHIFT = push_bit SHIFT x"
  by (simp add: shl_def signed_take_bit_int_eq_self push_bit_eq_mult)

lemma opcode_of_shl: "0 \<le> c \<Longrightarrow> c < 256 \<Longrightarrow> (c OR shl n SHIFT) AND IMASK = c"
proof -
  assume a: "0 \<le> c" "c < 256"
  have "(c OR shl n 8) AND 255 = take_bit 8 (c OR shl n 8)"
    by (simp add: take_bit_eq_mask mask_eq_exp_minus_1)
  also have "\<dots> = take_bit 8 c"
    by (simp add: take_bit_or shl_def take_bit_signed_take_bit take_bit_push_bit)
  also have "\<dots> = c" using a by (simp add: take_bit_int_eq_self)
  finally show ?thesis .
qed

lemma sint_nonneg_uint: "0 \<le> sint (c :: cell) \<Longrightarrow> sint c = uint c"
proof -
  assume a: "0 \<le> sint c"
  have "sint c < 128" using sint_lt [of c] by simp
  with a have "take_bit 8 (sint c) = sint c" by (simp add: take_bit_int_eq_self)
  then show ?thesis by (simp add: uint_sint)
qed

section \<open>The semaphore operations\<close>

text \<open>
  C3. \<open>_ n\<close> compares the current cell with \<open>n\<close> as the plain \<open>char\<close> that it is. If the
  value read is less than \<open>n\<close> the evaluator returns 2 with the program counter back on
  the \<open>_\<close> and nothing else changed, and \<open>execute\<close> then puts the thread, which carries its
  segment and data pointer, at the end of the sleep list; otherwise the cell is
  decremented by \<open>n\<close> and the thread goes on. Where \<open>char\<close> is unsigned the value read is
  the byte, 0..255. Where \<open>char\<close> is signed a byte of 128 or more is read as the byte
  minus 256, a negative value, so that it is less than every \<open>n\<close> that a run of \<open>_\<close> gives:
  the thread parks on a cell of 128..255 whatever \<open>n\<close> is.
\<close>

theorem down_compares_the_char:
  assumes "Gimem st (pc me) AND IMASK = ord CHR ''_''"
  shows "dispatch cost quanta me st =
           (if cell_int (char_signed st) (peek st (cmem me) (dp me))
                 < drop_bit SHIFT (Gimem st (pc me))
            then Some (Exit 2, me, st)
            else Some (Next cost, me\<lparr>pc := pc me + 1\<rparr>,
                       poke (cmem me) (dp me)
                         (peek st (cmem me) (dp me)
                            - word_of_int (drop_bit SHIFT (Gimem st (pc me)))) st))
         \<and> execute_switch 2 me st = st\<lparr>sListHead := sListHead st @ [me]\<rparr>
         \<and> cell_int (char_signed st) (peek st (cmem me) (dp me))
             = (if char_signed st \<and> 128 \<le> uint (peek st (cmem me) (dp me))
                then uint (peek st (cmem me) (dp me)) - 256
                else uint (peek st (cmem me) (dp me)))"
proof -
  have "sint c = (if 128 \<le> uint c then uint c - 256 else uint c)" for c :: cell
    by (rule sint_byte)
  with assms show ?thesis
    by (simp add: dispatch_def Let_def execute_switch_def appendList_def cell_int_def)
qed

text \<open>On an implementation with signed \<open>char\<close>: \<open>_ 1\<close> on a cell that holds 200 parks the
  thread, and the cell keeps its 200.\<close>

theorem down_compares_the_char_witness:
  "Gimem (boot_machine\<lparr>Gimem := (\<lambda>i. 351), mem := (\<lambda>m i. 200)\<rparr>) (pc boot_thread) AND IMASK
     = ord CHR ''_''
   \<and> char_signed (boot_machine\<lparr>Gimem := (\<lambda>i. 351), mem := (\<lambda>m i. 200)\<rparr>)
   \<and> uint (peek (boot_machine\<lparr>Gimem := (\<lambda>i. 351), mem := (\<lambda>m i. 200)\<rparr>) (Block 1) 0) = 200
   \<and> drop_bit SHIFT (Gimem (boot_machine\<lparr>Gimem := (\<lambda>i. 351), mem := (\<lambda>m i. 200)\<rparr>) 0) = 1
   \<and> dispatch 1 10 boot_thread (boot_machine\<lparr>Gimem := (\<lambda>i. 351), mem := (\<lambda>m i. 200)\<rparr>)
       = Some (Exit 2, boot_thread, boot_machine\<lparr>Gimem := (\<lambda>i. 351), mem := (\<lambda>m i. 200)\<rparr>)
   \<and> cell_int True (peek (boot_machine\<lparr>Gimem := (\<lambda>i. 351), mem := (\<lambda>m i. 200)\<rparr>) (Block 1) 0)
       = - 56"
  using down_compares_the_char
          [of "boot_machine\<lparr>Gimem := (\<lambda>i. 351), mem := (\<lambda>m i. 200)\<rparr>" boot_thread 1 10]
  by (simp add: boot_machine_def boot_thread_def peek_def)

text \<open>The same instruction on the same cell where \<open>char\<close> is unsigned: the cell becomes 199.\<close>

lemma down_on_unsigned_char:
  "dispatch 1 10 boot_thread
     (boot_machine\<lparr>Gimem := (\<lambda>i. 351), mem := (\<lambda>m i. 200), char_signed := False\<rparr>)
   = Some (Next 1, boot_thread\<lparr>pc := 1\<rparr>,
           poke (Block 1) 0 199
             (boot_machine\<lparr>Gimem := (\<lambda>i. 351), mem := (\<lambda>m i. 200), char_signed := False\<rparr>))"
  by (simp add: dispatch_def boot_machine_def boot_thread_def peek_def cell_int_def)

section \<open>Spawning threads and processes\<close>

text \<open>The thread that \<open>&\<close> creates when \<open>malloc\<close> returns a block.\<close>

definition spawned :: "TCB \<Rightarrow> machine \<Rightarrow> TCB" where
  "spawned me st =
     \<lparr>addr = malloc_calls st, par = par me,
      procs = memcpy (sizeof_ptr st) (procs (fresh_TCB st (malloc_calls st))) (procs me)
                (NUMPROC * sizeof_int),
      pc = pc me + 1, dp = (dp me + 1) AND DMASK, cmem = cmem me,
      stack = memcpy (sizeof_ptr st) (stack (fresh_TCB st (malloc_calls st))) (stack me)
                (nat STACKSIZE * sizeof_int),
      sp = sp me\<rparr>"

lemma spawn_thread:
  assumes "Gimem st (pc me) AND IMASK = ord CHR ''&''"
  shows "dispatch cost quanta me st =
           Some (Next cost, me\<lparr>pc := pc me + 1\<rparr>,
                 if malloc_ok st (malloc_calls st)
                 then schedule (spawned me st)
                        (on_PCB (par me) (\<lambda>P. P\<lparr>threads := threads P + 1\<rparr>)
                           ((poke (cmem me) ((dp me + 1) AND DMASK) 1 (poke (cmem me) (dp me) 0 st))
                              \<lparr>malloc_calls := malloc_calls st + 1,
                               live := malloc_calls st # live st\<rparr>))
                 else (poke (cmem me) ((dp me + 1) AND DMASK) 0 (poke (cmem me) (dp me) 0 st))
                        \<lparr>malloc_calls := malloc_calls st + 1\<rparr>)"
  using assms
  by (auto simp: dispatch_def Let_def createThread_def malloc_def poke_def peek_def spawned_def
        schedule_def on_PCB_def)

lemma spawned_fields:
  "par (spawned me st) = par me" "pc (spawned me st) = pc me + 1"
  "dp (spawned me st) = (dp me + 1) AND DMASK" "cmem (spawned me st) = cmem me"
  "sp (spawned me st) = sp me"
  by (simp_all add: spawned_def)

lemma spawned_copies_where_pointers_are_ints:
  assumes "sizeof_ptr st = sizeof_int"
  shows "i < NUMPROC \<Longrightarrow> procs (spawned me st) i = procs me i"
    and "i < nat STACKSIZE \<Longrightarrow> stack (spawned me st) i = stack me i"
  using assms by (simp_all add: spawned_def memcpy_def)

lemma spawned_copies_half_where_pointers_are_wide:
  assumes "sizeof_ptr st = 8"
  shows "procs (spawned me st) i =
           (if i < 31 then procs me i else procs (fresh_TCB st (malloc_calls st)) i)"
    and "stack (spawned me st) i =
           (if i < 512 then stack me i else stack (fresh_TCB st (malloc_calls st)) i)"
  using assms by (auto simp: spawned_def memcpy_def)

text \<open>
  C1. \<open>&\<close> writes 0 to the current cell and 1 to the next one and creates a thread of the
  same process at the advanced program counter, on the next cell of the same segment
  (\<open>spawn_thread\<close>, \<open>spawned_fields\<close>); when \<open>malloc\<close> fails the next cell is set to 0. The
  procedure table and the call stack are arrays of \<open>int *\<close> that \<open>createThread\<close> copies with
  \<open>NUMPROC * sizeof(int)\<close> and \<open>STACKSIZE * sizeof(int)\<close> bytes: all of them where a pointer
  has the size of an \<open>int\<close>, the first 31 procedures and the 512 stack slots that are used
  last where a pointer has eight bytes. There, a thread that has defined procedure \<open>a\<close>
  (slot 36) and is one call deep (\<open>sp = 1023\<close>) spawns a thread that has neither the
  procedure nor the return address.
\<close>

theorem spawn_loses_procedures_and_stack:
  "(case dispatch 1 10
           (boot_thread\<lparr>pc := 4, procs := (\<lambda>i. None)(36 \<mapsto> 2), sp := 1023,
                         stack := (\<lambda>i. 0)(1023 := 7)\<rparr>)
           (boot_machine\<lparr>Gimem := (\<lambda>i. ord CHR ''&'')\<rparr>) of
      None \<Rightarrow> None
    | Some (fl, me', st') \<Rightarrow>
        Some (procs me' 36, stack me' 1023,
              map (\<lambda>c. (pc c, sp c, procs c 36, stack c 1023)) (tListHead st')))
   = Some (Some 2, 7, [(5, 1023, None, 0)])"
  by (simp add: dispatch_def Let_def createThread_def malloc_def poke_def peek_def
        schedule_def on_PCB_def boot_machine_def boot_thread_def memcpy_def appendList_def)

text \<open>
  C10. A \<open>%\<close> for which one of the three allocations fails (the PCB, its data segment, the
  TCB of its thread) leaves the machine as it was but for the two cells, both 0, and the
  number of calls of \<open>malloc\<close>: no process and no thread is added, and the blocks that were
  obtained are freed again.
\<close>

theorem fork_failure_is_atomic:
  assumes "Gimem st (pc me) AND IMASK = ord CHR ''%''"
    and "PCBs st (par me) = Some P"
    and "PCBs st (malloc_calls st) = None"
    and "\<not> malloc_ok st (malloc_calls st) \<or> \<not> malloc_ok st (malloc_calls st + 1)
         \<or> \<not> malloc_ok st (malloc_calls st + 2)"
  shows "dispatch cost quanta me st =
           Some (Next cost, me\<lparr>pc := pc me + 1\<rparr>,
                 (poke (cmem me) ((dp me + 1) AND DMASK) 0 (poke (cmem me) (dp me) 0 st))
                   \<lparr>malloc_calls := malloc_calls st +
                      (if \<not> malloc_ok st (malloc_calls st) then 1
                       else if \<not> malloc_ok st (malloc_calls st + 1) then 2 else 3)\<rparr>)"
  using assms
  by (auto simp: dispatch_def Let_def createProcess_def createThread_def malloc_def free_def
        poke_def peek_def fun_upd_idem)

theorem fork_failure_is_atomic_witness:
  "Gimem (boot_machine\<lparr>Gimem := (\<lambda>i. ord CHR ''%''), malloc_ok := (\<lambda>k. k \<noteq> 5)\<rparr>) (pc boot_thread)
     AND IMASK = ord CHR ''%''
   \<and> dispatch 1 10 boot_thread
         (boot_machine\<lparr>Gimem := (\<lambda>i. ord CHR ''%''), malloc_ok := (\<lambda>k. k \<noteq> 5)\<rparr>)
       = Some (Next 1, boot_thread\<lparr>pc := 1\<rparr>,
               boot_machine\<lparr>Gimem := (\<lambda>i. ord CHR ''%''), malloc_ok := (\<lambda>k. k \<noteq> 5),
                              malloc_calls := 6\<rparr>)"
  using fork_failure_is_atomic
          [of "boot_machine\<lparr>Gimem := (\<lambda>i. ord CHR ''%''), malloc_ok := (\<lambda>k. k \<noteq> 5)\<rparr>"
              boot_thread _ 1 10]
  by (simp add: boot_machine_def boot_thread_def poke_def fun_upd_idem)

section \<open>Tick costs\<close>

text \<open>The opcodes that \<open>doQuanta\<close> has a case for, and the procedure that a word calls.\<close>

definition is_opcode :: "int \<Rightarrow> bool" where
  "is_opcode opc \<longleftrightarrow> opc \<in> set (map ord ''+-><.,[(}]{:|&%^_*@)=~;#'') \<or> opc = ZERO"






text \<open>
  The code has a second way to leave the cost of 1, which the header of the program does
  not describe: \<open>#\<close> and a word that calls no defined procedure set \<open>cost\<close> to 0, and
  nothing sets it back, so that the instructions that follow in the same call are free as
  well. In a quantum of one tick the program \<open>#+@\<close> runs \<open>+\<close> at cost 0 after the \<open>#\<close>: the
  quantum is not used up, and the thread goes on to \<open>@\<close> and dies (\<open>doQuanta\<close> returns 1).
\<close>

lemma cost_stays_zero:
  "(case dispatch 1 1 boot_thread (boot_machine\<lparr>Gimem := (\<lambda>i. ord CHR ''@'')(0 := 35, 1 := 299)\<rparr>) of
      Some (Next c, me', st') \<Rightarrow> map_option fst (dispatch c (1 - c) me' st')
    | _ \<Rightarrow> None) = Some (Next 0)
   \<and> map_option fst
         (doQuanta boot_thread 1 (boot_machine\<lparr>Gimem := (\<lambda>i. ord CHR ''@'')(0 := 35, 1 := 299)\<rparr>))
       = Some 1"
  by (simp add: doQuanta_def doQuanta_loop.simps dispatch_def Let_def boot_machine_def
        boot_thread_def peek_def poke_def)

section \<open>Procedure calls\<close>

lemma procNum_name: "procNum w \<noteq> NOPROC \<Longrightarrow> 48 \<le> w \<and> w \<le> 122"
  by (auto split: if_splits)

lemma name_word:
  assumes "procNum w \<noteq> NOPROC"
  shows "w AND IMASK = w" "to_char sg w = w" "\<not> is_opcode w"
proof -
  from assms have r: "48 \<le> w" "w \<le> 122" by (auto split: if_splits)
  then show "w AND IMASK = w" by (simp add: and_IMASK)
  from r show "to_char sg w = w" by (simp add: to_char_def)
  from assms show "\<not> is_opcode w" by (auto simp: is_opcode_def split: if_splits)
qed

lemma tail_call:
  assumes "procNum (Gimem st (pc me)) \<noteq> NOPROC"
    and "procs me (nat (procNum (Gimem st (pc me)))) = Some body"
    and "Gimem st (pc me + 1) = ord CHR '';'' \<or> Gimem st (pc me + 1) = ord CHR ''$''"
  shows "dispatch cost quanta me st = Some (Next cost, me\<lparr>pc := body\<rparr>, st)"
proof -
  note n = name_word [OF assms(1)]
  from n(3) have "Gimem st (pc me) \<notin> set (map ord ''+-><.,[(}]{:|&%^_*@)=~;#'')"
    "Gimem st (pc me) \<noteq> ZERO"
    by (simp_all add: is_opcode_def)
  then show ?thesis using assms n(1,2)
    by (simp add: dispatch_def Let_def)
qed

lemma tail_recursion_runs:
  assumes "\<And>c q. dispatch c q me st = Some (Next c, me, st)"
  shows "doQuanta_loop False 1 (int n) me st = Some (0, me, st)"
proof (induction n)
  case 0
  show ?case by (subst doQuanta_loop.simps) simp
next
  case (Suc n)
  have "doQuanta_loop False 1 (int (Suc n)) me st = doQuanta_loop False 1 (int (Suc n) - 1) me st"
    by (subst doQuanta_loop.simps) (simp add: assms)
  with Suc show ?case by simp
qed

text \<open>
  C5. A call of a defined procedure whose next instruction word is \<open>;\<close> (or \<open>$\<close>) moves the
  program counter to the procedure body and changes nothing else: no return address is
  pushed, the stack pointer and the stack are as before. So a procedure whose body is a
  call of itself followed by \<open>;\<close> runs for any quantum without touching the stack: after
  \<open>k\<close> ticks, that is \<open>k\<close> calls, the thread is as it was.
\<close>

theorem tail_call_keeps_stack:
  assumes "procNum (Gimem st (pc me)) \<noteq> NOPROC"
    and "procs me (nat (procNum (Gimem st (pc me)))) = Some body"
    and "Gimem st (pc me + 1) = ord CHR '';'' \<or> Gimem st (pc me + 1) = ord CHR ''$''"
  shows "dispatch cost quanta me st = Some (Next cost, me\<lparr>pc := body\<rparr>, st)
         \<and> (body = pc me \<longrightarrow> (\<forall>k. 0 < k \<longrightarrow> doQuanta me k st = Some (0, me, st)))"
proof -
  have d: "dispatch c q me st = Some (Next c, me\<lparr>pc := body\<rparr>, st)" for c q
    using assms by (rule tail_call)
  have "doQuanta me k st = Some (0, me, st)" if "body = pc me" "0 < k" for k
  proof -
    from that(1) have "dispatch c q me st = Some (Next c, me, st)" for c q
      using d [of c q] by simp
    from tail_recursion_runs [of me st "nat k", OF this] that(2)
    show ?thesis by (simp add: doQuanta_def)
  qed
  with d show ?thesis by blast
qed

theorem tail_call_keeps_stack_witness:
  "procNum (Gimem (boot_machine\<lparr>Gimem := (\<lambda>i. ord CHR '';'')(0 := ord CHR ''A'')\<rparr>)
      (pc (boot_thread\<lparr>procs := (\<lambda>i. None)(10 \<mapsto> 0)\<rparr>))) \<noteq> NOPROC
   \<and> doQuanta (boot_thread\<lparr>procs := (\<lambda>i. None)(10 \<mapsto> 0)\<rparr>) 1000
         (boot_machine\<lparr>Gimem := (\<lambda>i. ord CHR '';'')(0 := ord CHR ''A'')\<rparr>)
       = Some (0, boot_thread\<lparr>procs := (\<lambda>i. None)(10 \<mapsto> 0)\<rparr>,
               boot_machine\<lparr>Gimem := (\<lambda>i. ord CHR '';'')(0 := ord CHR ''A'')\<rparr>)"
  using tail_call_keeps_stack
          [of "boot_machine\<lparr>Gimem := (\<lambda>i. ord CHR '';'')(0 := ord CHR ''A'')\<rparr>"
              "boot_thread\<lparr>procs := (\<lambda>i. None)(10 \<mapsto> 0)\<rparr>" 0 1 10]
  by (simp add: boot_machine_def boot_thread_def)

section \<open>Stack pointer and data pointer stay in range\<close>

definition in_bounds :: "TCB \<Rightarrow> bool" where
  "in_bounds t \<longleftrightarrow> 0 \<le> sp t \<and> sp t \<le> STACKSIZE \<and> 0 \<le> dp t \<and> dp t < DMEM"

definition all_in_bounds :: "machine \<Rightarrow> bool" where
  "all_in_bounds st \<longleftrightarrow>
     list_all in_bounds (tListHead st) \<and> list_all in_bounds (sListHead st) \<and>
     (\<forall>p P. PCBs st p = Some P \<longrightarrow> list_all in_bounds (readyList P))"

lemma all_in_bounds_cong:
  "tListHead st' = tListHead st \<Longrightarrow> sListHead st' = sListHead st \<Longrightarrow> PCBs st' = PCBs st \<Longrightarrow>
   all_in_bounds st' = all_in_bounds st"
  by (simp add: all_in_bounds_def)


lemma masked_in_range: "0 \<le> x AND DMASK \<and> x AND DMASK < DMEM"
  by (simp add: and_DMASK)

















text \<open>A \<open>%\<close> under the process scheduler, where the block of the new PCB holds a null
  pointer: the child is the one thread on the ready list of the new process.\<close>

definition fork_machine :: machine where
  "fork_machine = boot_machine\<lparr>Gimem := (\<lambda>i. ord CHR ''%''), scheduler := SCHEDULE_PROCESS\<rparr>"



text \<open>The same \<open>%\<close> where the block does not hold a null pointer: \<open>appendList\<close> follows what
  it holds, and the dispatch has no result.\<close>

lemma fork_on_indeterminate_list:
  "dispatch 1 10 boot_thread (fork_machine\<lparr>fresh_null := (\<lambda>k. k \<noteq> 3)\<rparr>) = None"
  by (simp add: dispatch_def fork_machine_def boot_machine_def boot_thread_def Let_def
        createProcess_def createThread_def malloc_def schedule_def on_PCB_def appendList_def
        poke_def peek_def)

section \<open>Waking sleepers\<close>

text \<open>The sleep list without the first \<open>n\<close> threads that satisfy \<open>Q\<close>.\<close>

fun remove_first_n :: "nat \<Rightarrow> ('a \<Rightarrow> bool) \<Rightarrow> 'a list \<Rightarrow> 'a list" where
  "remove_first_n 0 Q xs = xs"
| "remove_first_n (Suc n) Q [] = []"
| "remove_first_n (Suc n) Q (x # xs) =
     (if Q x then remove_first_n n Q xs else x # remove_first_n (Suc n) Q xs)"

lemma remove_first_n_no_match: "filter Q xs = [] \<Longrightarrow> remove_first_n n Q xs = xs"
  by (induction n Q xs rule: remove_first_n.induct) (auto split: if_splits)

lemma unlink_first_spec:
  "unlink_first Q xs =
     (case filter Q xs of [] \<Rightarrow> (None, xs) | t # ts \<Rightarrow> (Some t, remove_first_n (Suc 0) Q xs))"
  by (induction xs) (auto split: list.splits)

lemma filter_remove_first: "filter Q (remove_first_n (Suc 0) Q xs) = tl (filter Q xs)"
  by (induction xs) auto

lemma remove_first_n_Suc:
  "remove_first_n n Q (remove_first_n (Suc 0) Q xs) = remove_first_n (Suc n) Q xs"
proof (induction xs)
  case Nil
  show ?case by (cases n) simp_all
next
  case (Cons x xs)
  show ?case
  proof (cases "Q x")
    case True
    then show ?thesis by simp
  next
    case False
    with Cons show ?thesis by (cases n) simp_all
  qed
qed

lemma schedule_sListHead:
  "sListHead (schedule t st) = sListHead st"
  "schedule t (st\<lparr>sListHead := xs\<rparr>) = (schedule t st)\<lparr>sListHead := xs\<rparr>"
  by (simp_all add: schedule_def on_PCB_def)

lemma wake_spec:
  "wake n m ptr st =
     fold schedule (take n (filter (\<lambda>this. dp this = ptr \<and> cmem this = m) (sListHead st)))
       (st\<lparr>sListHead := remove_first_n n (\<lambda>this. dp this = ptr \<and> cmem this = m) (sListHead st)\<rparr>)"
proof (induction n arbitrary: st)
  case 0
  show ?case by simp
next
  case (Suc n)
  let ?Q = "\<lambda>this. dp this = ptr \<and> cmem this = m"
  show ?case
  proof (cases "filter ?Q (sListHead st)")
    case Nil
    then have "checkSemaphores m ptr st = st"
      by (simp add: checkSemaphores_def unlink_first_spec)
    then have "wake (Suc n) m ptr st = wake n m ptr st" by simp
    also have "\<dots> = fold schedule (take n (filter ?Q (sListHead st)))
                       (st\<lparr>sListHead := remove_first_n n ?Q (sListHead st)\<rparr>)"
      by (rule Suc.IH)
    finally show ?thesis using Nil by (simp add: remove_first_n_no_match)
  next
    case (Cons t ts)
    let ?rest = "remove_first_n (Suc 0) ?Q (sListHead st)"
    let ?st1 = "schedule t (st\<lparr>sListHead := ?rest\<rparr>)"
    from Cons have ne: "sListHead st \<noteq> []" by auto
    from Cons have c: "checkSemaphores m ptr st = ?st1"
      by (simp add: checkSemaphores_def unlink_first_spec)
    have f: "filter ?Q ?rest = ts" using Cons by (simp add: filter_remove_first)
    have "wake (Suc n) m ptr st = wake n m ptr ?st1" using ne c by simp
    also have "\<dots> = fold schedule (take n (filter ?Q (sListHead ?st1)))
                       (?st1\<lparr>sListHead := remove_first_n n ?Q (sListHead ?st1)\<rparr>)"
      by (rule Suc.IH)
    also have "sListHead ?st1 = ?rest" by (simp add: schedule_sListHead)
    also have "?st1\<lparr>sListHead := remove_first_n n ?Q ?rest\<rparr>
               = schedule t (st\<lparr>sListHead := remove_first_n (Suc n) ?Q (sListHead st)\<rparr>)"
      by (simp add: schedule_sListHead remove_first_n_Suc)
    also note f
    finally show ?thesis using Cons by simp
  qed
qed

lemma fold_schedule_frame:
  "sListHead (fold schedule ts st) = sListHead st"
  "mem (fold schedule ts st) = mem st"
  "scheduler (fold schedule ts st) = scheduler st"
  by (induction ts arbitrary: st) (simp_all add: schedule_def on_PCB_def)

lemma fold_schedule_threads:
  "scheduler st \<noteq> SCHEDULE_PROCESS \<Longrightarrow>
   tListHead (fold schedule ts st) = tListHead st @ ts \<and> PCBs (fold schedule ts st) = PCBs st"
  by (induction ts arbitrary: st) (simp_all add: schedule_def appendList_def)

lemma fold_schedule_processes:
  "scheduler st = SCHEDULE_PROCESS \<Longrightarrow>
   tListHead (fold schedule ts st) = tListHead st \<and>
   PCBs (fold schedule ts st) p =
     map_option (\<lambda>P. P\<lparr>readyList := readyList P @ filter (\<lambda>t. par t = p) ts\<rparr>) (PCBs st p)"
proof (induction ts arbitrary: st)
  case Nil
  show ?case by (simp add: option.map_ident)
next
  case (Cons t ts)
  have s: "scheduler (schedule t st) = SCHEDULE_PROCESS"
    using Cons.prems by (simp add: schedule_def on_PCB_def)
  from Cons.IH [OF s] Cons.prems show ?case
    by (auto simp: schedule_def on_PCB_def appendList_def option.map_comp o_def
             intro!: option.map_cong)
qed

text \<open>
  C6. \<open>^ n\<close> adds \<open>n\<close> to the current cell once and then scans the sleep list \<open>n\<close> times.
  The threads woken are the first \<open>n\<close> sleepers, in the order of the sleep list, whose
  data pointer and segment are those of the running thread (fewer when fewer match, none
  when none does); they leave the sleep list and are scheduled one after the other in
  that order: appended to the thread list, or each to the ready list of its process.
\<close>

theorem up_wakes_in_sleep_order:
  assumes "Gimem st (pc me) AND IMASK = ord CHR ''^''"
    and "0 \<le> drop_bit SHIFT (Gimem st (pc me))"
  shows "let n = drop_bit SHIFT (Gimem st (pc me));
             Q = (\<lambda>this. dp this = dp me \<and> cmem this = cmem me);
             woken = take (nat n) (filter Q (sListHead st));
             st1 = poke (cmem me) (dp me) (peek st (cmem me) (dp me) + word_of_int n) st;
             st' = fold schedule woken (st1\<lparr>sListHead := remove_first_n (nat n) Q (sListHead st)\<rparr>)
         in dispatch cost quanta me st = Some (Next cost, me\<lparr>pc := pc me + 1\<rparr>, st')
            \<and> mem st' = mem st1
            \<and> sListHead st' = remove_first_n (nat n) Q (sListHead st)
            \<and> length woken \<le> nat n
            \<and> (scheduler st \<noteq> SCHEDULE_PROCESS \<longrightarrow> tListHead st' = tListHead st @ woken)
            \<and> (scheduler st = SCHEDULE_PROCESS \<longrightarrow>
                 (\<forall>p. PCBs st' p =
                    map_option (\<lambda>P. P\<lparr>readyList := readyList P @ filter (\<lambda>t. par t = p) woken\<rparr>)
                      (PCBs st p)))"
proof -
  define n where "n = drop_bit SHIFT (Gimem st (pc me))"
  define Q where "Q = (\<lambda>this::TCB. dp this = dp me \<and> cmem this = cmem me)"
  define woken where "woken = take (nat n) (filter Q (sListHead st))"
  define st1 where "st1 = poke (cmem me) (dp me) (peek st (cmem me) (dp me) + word_of_int n) st"
  define st2 where "st2 = st1\<lparr>sListHead := remove_first_n (nat n) Q (sListHead st)\<rparr>"
  have s1: "sListHead st1 = sListHead st" "scheduler st1 = scheduler st"
    "tListHead st1 = tListHead st" "PCBs st1 = PCBs st"
    by (simp_all add: st1_def poke_def)
  have s2: "scheduler st2 = scheduler st" "tListHead st2 = tListHead st" "PCBs st2 = PCBs st"
    "mem st2 = mem st1" "sListHead st2 = remove_first_n (nat n) Q (sListHead st)"
    by (simp_all add: st2_def s1)
  have w: "wake (nat n) (cmem me) (dp me) st1 = fold schedule woken st2"
    unfolding wake_spec woken_def st2_def Q_def s1 ..
  have d: "dispatch cost quanta me st = Some (Next cost, me\<lparr>pc := pc me + 1\<rparr>, fold schedule woken st2)"
    using assms w by (simp add: dispatch_def Let_def n_def st1_def)
  have "length woken \<le> nat n" by (simp add: woken_def)
  moreover have "scheduler st \<noteq> SCHEDULE_PROCESS \<longrightarrow>
      tListHead (fold schedule woken st2) = tListHead st @ woken"
    using fold_schedule_threads [of st2 woken] s2 by simp
  moreover have "scheduler st = SCHEDULE_PROCESS \<longrightarrow>
      (\<forall>p. PCBs (fold schedule woken st2) p =
         map_option (\<lambda>P. P\<lparr>readyList := readyList P @ filter (\<lambda>t. par t = p) woken\<rparr>) (PCBs st p))"
    using fold_schedule_processes [of st2 woken] s2 by simp
  ultimately show ?thesis
    using d s2 fold_schedule_frame [of woken st2]
    unfolding Let_def n_def [symmetric] Q_def [symmetric] woken_def [symmetric]
      st1_def [symmetric] st2_def [symmetric]
    by simp
qed

theorem up_wakes_in_sleep_order_witness:
  "Gimem (boot_machine\<lparr>Gimem := (\<lambda>i. 606),
            sListHead := [boot_thread\<lparr>addr := 10\<rparr>, boot_thread\<lparr>addr := 11, dp := 5\<rparr>,
                          boot_thread\<lparr>addr := 12\<rparr>, boot_thread\<lparr>addr := 13\<rparr>]\<rparr>)
      (pc boot_thread) AND IMASK = ord CHR ''^''
   \<and> (case dispatch 1 10 boot_thread
              (boot_machine\<lparr>Gimem := (\<lambda>i. 606),
                 sListHead := [boot_thread\<lparr>addr := 10\<rparr>, boot_thread\<lparr>addr := 11, dp := 5\<rparr>,
                               boot_thread\<lparr>addr := 12\<rparr>, boot_thread\<lparr>addr := 13\<rparr>]\<rparr>) of
         None \<Rightarrow> None
       | Some (fl, me', st') \<Rightarrow>
           Some (map addr (tListHead st'), map addr (sListHead st'), mem st' (Block 1) 0))
       = Some ([10, 12], [11, 13], 2)"
  using up_wakes_in_sleep_order
          [of "boot_machine\<lparr>Gimem := (\<lambda>i. 606),
                 sListHead := [boot_thread\<lparr>addr := 10\<rparr>, boot_thread\<lparr>addr := 11, dp := 5\<rparr>,
                               boot_thread\<lparr>addr := 12\<rparr>, boot_thread\<lparr>addr := 13\<rparr>]\<rparr>"
              boot_thread 1 10]
  by (simp add: Let_def boot_machine_def boot_thread_def poke_def peek_def schedule_def
        appendList_def numeral_2_eq_2)

section \<open>The loop that clears a cell\<close>

text \<open>\<open>dispatches k\<close> is \<open>k\<close> turns of the loop of \<open>doQuanta\<close> without the test of the quantum.\<close>

fun dispatches :: "nat \<Rightarrow> int \<Rightarrow> int \<Rightarrow> TCB \<Rightarrow> machine \<Rightarrow> (flow \<times> TCB \<times> machine) option" where
  "dispatches 0 cost quanta me st = Some (Next cost, me, st)"
| "dispatches (Suc k) cost quanta me st =
     (case dispatch cost quanta me st of
        Some (Next cost', me', st') \<Rightarrow> dispatches k cost' (quanta - cost') me' st'
      | r \<Rightarrow> r)"

lemma poke_same: "peek st m i = v \<Longrightarrow> poke m i v st = st"
  by (simp add: poke_def peek_def fun_upd_idem)

lemma poke_poke: "poke m i v (poke m i w st) = poke m i v st"
  by (simp add: poke_def)

lemma peek_poke: "peek (poke m i v st) m i = v"
  by (simp add: poke_def peek_def)

lemma minus_and_back:
  assumes "Gimem st (p + 1) = ord CHR ''-'' OR push_bit SHIFT 1"
    and "Gimem st (p + 2) = ord CHR '']'' OR push_bit SHIFT 2"
    and "pc me = p + 1"
  shows "dispatches (Suc (Suc k)) cost quanta me st
           = dispatches k cost (quanta - cost - cost)
               (if peek st (cmem me) (dp me) - 1 \<noteq> 0 then me else me\<lparr>pc := p + 3\<rparr>)
               (poke (cmem me) (dp me) (peek st (cmem me) (dp me) - 1) st)"
proof -
  let ?st1 = "poke (cmem me) (dp me) (peek st (cmem me) (dp me) - 1) st"
  have 1: "dispatch cost quanta me st = Some (Next cost, me\<lparr>pc := p + 2\<rparr>, ?st1)"
    using assms by (simp add: dispatch_def Let_def)
  have g: "Gimem ?st1 (p + 2) = 605" using assms(2) by (simp add: poke_def)
  have 2: "dispatch cost (quanta - cost) (me\<lparr>pc := p + 2\<rparr>) ?st1
             = Some (Next cost,
                     if peek st (cmem me) (dp me) - 1 \<noteq> 0 then me\<lparr>pc := p + 1\<rparr>
                     else me\<lparr>pc := p + 3\<rparr>, ?st1)"
    using g by (simp add: dispatch_def Let_def peek_poke)
  have "me\<lparr>pc := p + 1\<rparr> = me" using assms(3) by simp
  with 1 2 show ?thesis by simp
qed

lemma countdown:
  "Gimem st (p + 1) = ord CHR ''-'' OR push_bit SHIFT 1 \<Longrightarrow>
   Gimem st (p + 2) = ord CHR '']'' OR push_bit SHIFT 2 \<Longrightarrow>
   pc me = p + 1 \<Longrightarrow> unat (peek st (cmem me) (dp me)) = Suc n \<Longrightarrow>
   dispatches (2 * Suc n) cost quanta me st
     = Some (Next cost, me\<lparr>pc := p + 3\<rparr>, poke (cmem me) (dp me) 0 st)"
proof (induction n arbitrary: st quanta)
  case 0
  from 0(4) have v: "peek st (cmem me) (dp me) = 1" by (simp add: word_unat_eq_iff)
  have "dispatches (2 * Suc 0) cost quanta me st = dispatches (Suc (Suc 0)) cost quanta me st"
    by (simp only: mult_2 add_Suc add_Suc_right add_0_right)
  also have "\<dots> = dispatches 0 cost (quanta - cost - cost) (me\<lparr>pc := p + 3\<rparr>)
                      (poke (cmem me) (dp me) 0 st)"
    using v by (simp add: minus_and_back [OF 0(1-3)] del: dispatches.simps)
  finally show ?case by simp
next
  case (Suc n)
  let ?v = "peek st (cmem me) (dp me)"
  let ?st1 = "poke (cmem me) (dp me) (?v - 1) st"
  from Suc.prems(4) have nz: "?v \<noteq> 0" by auto
  then have u: "unat (?v - 1) = Suc n" using Suc.prems(4) by (simp add: unat_minus_one)
  then have nz1: "?v - 1 \<noteq> 0" by auto
  have "dispatches (2 * Suc (Suc n)) cost quanta me st
          = dispatches (Suc (Suc (2 * Suc n))) cost quanta me st"
    by (simp only: mult_2 add_Suc add_Suc_right)
  also have "\<dots> = dispatches (2 * Suc n) cost (quanta - cost - cost) me ?st1"
    using nz1 by (simp add: minus_and_back [OF Suc.prems(1-3)] del: dispatches.simps)
  also have "\<dots> = Some (Next cost, me\<lparr>pc := p + 3\<rparr>, poke (cmem me) (dp me) 0 ?st1)"
    using Suc.prems(1-3) u by (intro Suc.IH) (simp_all add: poke_def peek_def)
  finally show ?case by (simp add: poke_poke)
qed

lemma zero_loop_runs:
  assumes "Gimem st p = ord CHR ''['' OR push_bit SHIFT 2"
    and "Gimem st (p + 1) = ord CHR ''-'' OR push_bit SHIFT 1"
    and "Gimem st (p + 2) = ord CHR '']'' OR push_bit SHIFT 2"
  shows "dispatches (1 + 2 * unat (peek st (cmem me) (dp me))) cost quanta (me\<lparr>pc := p\<rparr>) st
           = Some (Next cost, me\<lparr>pc := p + 3\<rparr>, poke (cmem me) (dp me) 0 st)"
proof (cases "peek st (cmem me) (dp me) = 0")
  case True
  then show ?thesis using assms(1) by (simp add: dispatch_def Let_def poke_same)
next
  case False
  then obtain n where n: "unat (peek st (cmem me) (dp me)) = Suc n"
    by (metis not0_implies_Suc unsigned_eq_0_iff)
  have "dispatch cost quanta (me\<lparr>pc := p\<rparr>) st = Some (Next cost, me\<lparr>pc := p + 1\<rparr>, st)"
    using assms(1) False by (simp add: dispatch_def Let_def)
  moreover have "dispatches (2 * Suc n) cost (quanta - cost) (me\<lparr>pc := p + 1\<rparr>) st
           = Some (Next cost, me\<lparr>pc := p + 1\<rparr>\<lparr>pc := p + 3\<rparr>,
                   poke (cmem (me\<lparr>pc := p + 1\<rparr>)) (dp (me\<lparr>pc := p + 1\<rparr>)) 0 st)"
    using assms(2,3) n by (intro countdown) simp_all
  ultimately show ?thesis using n by (simp del: mult_Suc_right)
qed

text \<open>The instruction that the compiler puts in the place of such a loop.\<close>

lemma zero_instruction:
  "Gimem st q AND IMASK = ZERO \<Longrightarrow>
   dispatch cost quanta (me\<lparr>pc := q\<rparr>) st
     = Some (Next cost, me\<lparr>pc := q + 1\<rparr>, poke (cmem me) (dp me) 0 st)"
  by (simp add: dispatch_def Let_def)

lemma getNext_head:
  "fin s = c # rest \<Longrightarrow> accepted c \<Longrightarrow> getNext_done s \<noteq> GOOD \<Longrightarrow>
   getNext s = (c, s\<lparr>fin := rest\<rparr>)"
  by (simp add: getNext_def)

subsection \<open>Turns of the loop of the compiler\<close>

text \<open>One turn of the loop of \<open>recCompile\<close>, for each of the three things the \<open>switch\<close> does.\<close>

lemma recCompile_loop_Return:
  "next_word cp0 s0 = (cc, rl, s) \<Longrightarrow>
   recCompile_switch cc rl (cp0 + 1) op ll bf s = Return np f s' \<Longrightarrow>
   recCompile_loop cp0 op ll bf s0 = (np, f, s')"
  by (subst recCompile_loop.simps) simp

lemma recCompile_loop_Again:
  "next_word cp0 s0 = (cc, rl, s) \<Longrightarrow>
   recCompile_switch cc rl (cp0 + 1) op ll bf s = Again cp op' bf' s' \<Longrightarrow>
   recCompile_loop cp0 op ll bf s0 = recCompile_loop cp op' ll bf' s'"
  by (subst recCompile_loop.simps) simp

lemma recCompile_loop_Enter:
  "next_word cp0 s0 = (cc, rl, s) \<Longrightarrow>
   recCompile_switch cc rl (cp0 + 1) op ll bf s = Enter k cp s' \<Longrightarrow>
   recCompile_loop cp op1 ll1 0 s' = (np, f, s3) \<Longrightarrow> op1 = cp - 1 \<Longrightarrow>
   ll1 = body_ll k cp ll \<Longrightarrow> np \<noteq> BAD \<Longrightarrow>
   resume k cp np f bf s3 = (cp', bf', s4) \<Longrightarrow>
   recCompile_loop cp0 op ll bf s0 = recCompile_loop cp' op ll bf' s4"
  by (subst recCompile_loop.simps) simp

lemma recCompile_loop_Enter_BAD:
  "next_word cp0 s0 = (cc, rl, s) \<Longrightarrow>
   recCompile_switch cc rl (cp0 + 1) op ll bf s = Enter k cp s' \<Longrightarrow>
   recCompile_loop cp (cp - 1) (body_ll k cp ll) 0 s' = (BAD, f, s3) \<Longrightarrow>
   recCompile_loop cp0 op ll bf s0 = (BAD, 0, s3)"
  by (subst recCompile_loop.simps) simp

subsection \<open>The loop \<open>[-]\<close> in the compiler\<close>

text \<open>
  The text \<open>[-]\<close> read at \<open>cp = c\<close>. Where the loop is kept, the word at \<open>c\<close> becomes the
  zeroing instruction and the compiler goes on at \<open>c + 1\<close>. The test that drops a loop
  comes first in the code: at the start of the first program, and after a word \<open>]\<close>,
  \<open>"\<close> or \<open>@\<close>, the compiler goes on at \<open>c\<close> itself, so nothing is emitted. In both cases the
  indices above the new \<open>cp\<close> keep words that the next ones overwrite.
\<close>

lemma zero_loop_collapses:
  assumes "fin s0 = ord CHR ''['' # ord CHR ''-'' # ord CHR '']'' # rest"
    and "getNext_done s0 \<noteq> GOOD"
    and "0 < c" and "mimem s0 (c - 1) AND IMASK \<noteq> ord CHR '']''"
    and "mimem s0 (c - 1) \<noteq> ZERO" and "mimem s0 (c - 1) \<noteq> ord CHR ''@''"
  shows "recCompile_loop c op ll bf s0
           = recCompile_loop (c + 1) op ll bf
               (s0\<lparr>mimem := (mimem s0)(c := ZERO,
                                        c + 1 := ord CHR ''-'' OR push_bit SHIFT 1,
                                        c + 2 := ord CHR '']'' OR push_bit SHIFT 2),
                   fin := rest, feof := False\<rparr>)"
proof -
  let ?s1 = "s0\<lparr>mimem := (mimem s0)(c := ord CHR ''[''), fin := ord CHR ''-'' # ord CHR '']'' # rest\<rparr>"
  let ?s2 = "s0\<lparr>mimem := (mimem s0)(c := ord CHR ''['', c + 1 := ord CHR ''-'' OR push_bit SHIFT 1),
                fin := ord CHR '']'' # rest, feof := False\<rparr>"
  let ?s3 = "s0\<lparr>mimem := (mimem s0)(c := ord CHR ''['', c + 1 := ord CHR ''-'' OR push_bit SHIFT 1,
                 c + 2 := ord CHR '']''),
                fin := rest, feof := False\<rparr>"
  have n1: "next_word c s0 = (ord CHR ''['', 0, ?s1)"
    using assms(1,2) by (simp add: next_word_def shl_small getNext_def accepted_def)
  have n2: "next_word (c + 1) ?s1 = (ord CHR ''-'', 1, ?s2)"
    using assms(2) by (simp add: next_word_def shl_small getNext_def accepted_def run_length.simps unGetNext_def)
  have n3: "next_word (c + 2) ?s2 = (ord CHR '']'', 0, ?s3)"
    using assms(2) by (simp add: next_word_def shl_small getNext_def accepted_def)
  have a: "recCompile_switch (ord CHR ''-'') 1 (c + 1 + 1) c (c + 1) 0 ?s2 = Again (c + 2) c 0 ?s2"
    by (simp add: recCompile_switch_def)
  have b: "recCompile_switch (ord CHR '']'') 0 (c + 2 + 1) c (c + 1) 0 ?s3 = Return (c + 3) 0 ?s3"
    by (simp add: recCompile_switch_def)
  have body: "recCompile_loop (c + 1) c (c + 1) 0 ?s1 = (c + 3, 0, ?s3)"
    using recCompile_loop_Again [OF n2 a] recCompile_loop_Return [OF n3 b] by simp
  have e: "recCompile_switch (ord CHR ''['') 0 (c + 1) op ll bf ?s1 = Enter Open_while (c + 1) ?s1"
    by (simp add: recCompile_switch_def)
  have r: "resume Open_while (c + 1) (c + 3) 0 bf ?s3
             = (c + 1, bf, s0\<lparr>mimem := (mimem s0)(c := ZERO,
                                        c + 1 := ord CHR ''-'' OR push_bit SHIFT 1,
                                        c + 2 := ord CHR '']'' OR push_bit SHIFT 2),
                   fin := rest, feof := False\<rparr>)"
    using assms(3-6)
    apply (simp add: close_while_def patch_loop_def shl_small Let_def)
    apply (rule source.equality)
    apply (auto simp: fun_eq_iff)
    done
  from recCompile_loop_Enter [OF n1 e body _ _ _ r] assms(3) show ?thesis by simp
qed

lemma zero_loop_elided:
  assumes "fin s0 = ord CHR ''['' # ord CHR ''-'' # ord CHR '']'' # rest"
    and "getNext_done s0 \<noteq> GOOD"
    and "0 \<le> c"
    and "c = 0 \<or> mimem s0 (c - 1) AND IMASK = ord CHR '']'' \<or>
         mimem s0 (c - 1) = ZERO \<or> mimem s0 (c - 1) = ord CHR ''@''"
  shows "recCompile_loop c op ll bf s0
           = recCompile_loop c op ll bf
               (s0\<lparr>mimem := (mimem s0)(c := ord CHR ''['' OR push_bit SHIFT 2,
                                        c + 1 := ord CHR ''-'' OR push_bit SHIFT 1,
                                        c + 2 := ord CHR '']'' OR push_bit SHIFT 2),
                   fin := rest, feof := False\<rparr>)"
proof -
  let ?s1 = "s0\<lparr>mimem := (mimem s0)(c := ord CHR ''[''), fin := ord CHR ''-'' # ord CHR '']'' # rest\<rparr>"
  let ?s2 = "s0\<lparr>mimem := (mimem s0)(c := ord CHR ''['', c + 1 := ord CHR ''-'' OR push_bit SHIFT 1),
                fin := ord CHR '']'' # rest, feof := False\<rparr>"
  let ?s3 = "s0\<lparr>mimem := (mimem s0)(c := ord CHR ''['', c + 1 := ord CHR ''-'' OR push_bit SHIFT 1,
                 c + 2 := ord CHR '']''),
                fin := rest, feof := False\<rparr>"
  have n1: "next_word c s0 = (ord CHR ''['', 0, ?s1)"
    using assms(1,2) by (simp add: next_word_def shl_small getNext_def accepted_def)
  have n2: "next_word (c + 1) ?s1 = (ord CHR ''-'', 1, ?s2)"
    using assms(2) by (simp add: next_word_def shl_small getNext_def accepted_def run_length.simps unGetNext_def)
  have n3: "next_word (c + 2) ?s2 = (ord CHR '']'', 0, ?s3)"
    using assms(2) by (simp add: next_word_def shl_small getNext_def accepted_def)
  have a: "recCompile_switch (ord CHR ''-'') 1 (c + 1 + 1) c (c + 1) 0 ?s2 = Again (c + 2) c 0 ?s2"
    by (simp add: recCompile_switch_def)
  have b: "recCompile_switch (ord CHR '']'') 0 (c + 2 + 1) c (c + 1) 0 ?s3 = Return (c + 3) 0 ?s3"
    by (simp add: recCompile_switch_def)
  have body: "recCompile_loop (c + 1) c (c + 1) 0 ?s1 = (c + 3, 0, ?s3)"
    using recCompile_loop_Again [OF n2 a] recCompile_loop_Return [OF n3 b] by simp
  have e: "recCompile_switch (ord CHR ''['') 0 (c + 1) op ll bf ?s1 = Enter Open_while (c + 1) ?s1"
    by (simp add: recCompile_switch_def)
  have r: "resume Open_while (c + 1) (c + 3) 0 bf ?s3
             = (c, bf, s0\<lparr>mimem := (mimem s0)(c := ord CHR ''['' OR push_bit SHIFT 2,
                                        c + 1 := ord CHR ''-'' OR push_bit SHIFT 1,
                                        c + 2 := ord CHR '']'' OR push_bit SHIFT 2),
                   fin := rest, feof := False\<rparr>)"
    using assms(4)
    apply (simp add: close_while_def patch_loop_def shl_small Let_def)
    apply (rule source.equality)
    apply (auto simp: fun_eq_iff)
    done
  from recCompile_loop_Enter [OF n1 e body _ _ _ r] assms(3) show ?thesis by simp
qed

text \<open>
  C9, amended. Run from any state, the three words that \<open>[-]\<close> compiles to (\<open>[\<close> and \<open>]\<close>
  with distance 2 around \<open>-\<close> with run length 1) and the instruction \<open>"\<close> both leave the
  current cell 0 and everything else as it was, with the program counter behind the
  construct; the loop takes one dispatch for \<open>[\<close> and two for each unit of the cell. The
  compiler turns the text \<open>[-]\<close> into the single word \<open>"\<close> when the loop is one that it
  keeps: it is not at index 0 and the word before it is not \<open>]\<close>, \<open>"\<close> or \<open>@\<close>.
\<close>

theorem zero_loop_is_zero_instruction:
  assumes "Gimem st p = ord CHR ''['' OR push_bit SHIFT 2"
    and "Gimem st (p + 1) = ord CHR ''-'' OR push_bit SHIFT 1"
    and "Gimem st (p + 2) = ord CHR '']'' OR push_bit SHIFT 2"
    and "Gimem st q = ZERO"
    and "fin s0 = ord CHR ''['' # ord CHR ''-'' # ord CHR '']'' # rest"
    and "getNext_done s0 \<noteq> GOOD"
    and "0 < c" and "mimem s0 (c - 1) AND IMASK \<noteq> ord CHR '']''"
    and "mimem s0 (c - 1) \<noteq> ZERO" and "mimem s0 (c - 1) \<noteq> ord CHR ''@''"
  shows "dispatches (1 + 2 * unat (peek st (cmem me) (dp me))) cost quanta (me\<lparr>pc := p\<rparr>) st
           = Some (Next cost, me\<lparr>pc := p + 3\<rparr>, poke (cmem me) (dp me) 0 st)
         \<and> dispatch cost quanta (me\<lparr>pc := q\<rparr>) st
           = Some (Next cost, me\<lparr>pc := q + 1\<rparr>, poke (cmem me) (dp me) 0 st)
         \<and> recCompile_loop c op ll bf s0
           = recCompile_loop (c + 1) op ll bf
               (s0\<lparr>mimem := (mimem s0)(c := ZERO,
                                        c + 1 := ord CHR ''-'' OR push_bit SHIFT 1,
                                        c + 2 := ord CHR '']'' OR push_bit SHIFT 2),
                   fin := rest, feof := False\<rparr>)"
proof -
  from assms(4) have "Gimem st q AND IMASK = ZERO" by simp
  from zero_loop_runs [OF assms(1-3)] zero_instruction [OF this]
       zero_loop_collapses [OF assms(5-10)]
  show ?thesis by blast
qed

theorem zero_loop_is_zero_instruction_witness:
  "Gimem (boot_machine\<lparr>Gimem := (\<lambda>i. ord CHR ''@'')(0 := 34, 1 := 603, 2 := 301, 3 := 605),
                        mem := (\<lambda>m i. 3)\<rparr>) 1 = ord CHR ''['' OR push_bit SHIFT 2
   \<and> dispatches 7 1 0 (boot_thread\<lparr>pc := 1\<rparr>)
        (boot_machine\<lparr>Gimem := (\<lambda>i. ord CHR ''@'')(0 := 34, 1 := 603, 2 := 301, 3 := 605),
                      mem := (\<lambda>m i. 3)\<rparr>)
      = Some (Next 1, boot_thread\<lparr>pc := 4\<rparr>,
              poke (Block 1) 0 0
                (boot_machine\<lparr>Gimem := (\<lambda>i. ord CHR ''@'')(0 := 34, 1 := 603, 2 := 301, 3 := 605),
                              mem := (\<lambda>m i. 3)\<rparr>))
   \<and> dispatch 1 0 (boot_thread\<lparr>pc := 0\<rparr>)
        (boot_machine\<lparr>Gimem := (\<lambda>i. ord CHR ''@'')(0 := 34, 1 := 603, 2 := 301, 3 := 605),
                      mem := (\<lambda>m i. 3)\<rparr>)
      = Some (Next 1, boot_thread\<lparr>pc := 1\<rparr>,
              poke (Block 1) 0 0
                (boot_machine\<lparr>Gimem := (\<lambda>i. ord CHR ''@'')(0 := 34, 1 := 603, 2 := 301, 3 := 605),
                              mem := (\<lambda>m i. 3)\<rparr>))
   \<and> recCompile_loop 1 (- 1) BAD 0
        \<lparr>mimem = (\<lambda>i. 0)(0 := 299), fin = map ord ''[-]'', feof = False, getNext_done = BAD\<rparr>
      = recCompile_loop 2 (- 1) BAD 0
          \<lparr>mimem = (\<lambda>i. 0)(0 := 299, 1 := 34, 2 := 301, 3 := 605), fin = [], feof = False,
           getNext_done = BAD\<rparr>"
  using zero_loop_is_zero_instruction
          [of "boot_machine\<lparr>Gimem := (\<lambda>i. ord CHR ''@'')(0 := 34, 1 := 603, 2 := 301, 3 := 605),
                             mem := (\<lambda>m i. 3)\<rparr>" 1 0
              "\<lparr>mimem = (\<lambda>i. 0)(0 := 299), fin = map ord ''[-]'', feof = False, getNext_done = BAD\<rparr>"
              "[]" 1 boot_thread 1 0 "- 1" BAD 0]
  by (simp add: boot_machine_def boot_thread_def peek_def)

text \<open>
  C9 as stated fails for a loop that the compiler drops: the program \<open>[-]\<close> compiles to the
  single word \<open>@\<close>, and in \<open>+[-][-]\<close> the second loop leaves no word: the memory holds
  \<open>+\<close>, \<open>"\<close>, \<open>@\<close>.
\<close>

theorem zero_loop_counterexample:
  "(case recCompile 0 BAD \<lparr>mimem = (\<lambda>i. 0), fin = map ord ''[-]'', feof = False, getNext_done = BAD\<rparr>
     of (np, f, s) \<Rightarrow> (np, mimem s 0)) = (1, ord CHR ''@'')
   \<and> (case recCompile 0 BAD \<lparr>mimem = (\<lambda>i. 0), fin = map ord ''+[-][-]'', feof = False, getNext_done = BAD\<rparr>
     of (np, f, s) \<Rightarrow> (np, mimem s 0, mimem s 1, mimem s 2))
       = (3, ord CHR ''+'' OR push_bit SHIFT 1, ZERO, ord CHR ''@'')"
  by (simp add: recCompile_def recCompile_loop.simps next_word_def shl_small getNext_def accepted_def
        run_length.simps unGetNext_def recCompile_switch_def close_while_def patch_loop_def shl_small Let_def)

section \<open>Breaks and continues\<close>

text \<open>
  A word is pending when it is a break or a continue that \<open>backFill\<close> has not rewritten;
  \<open>unresolved m a b\<close> says that the memory \<open>m\<close> holds a pending word in \<open>a .. b - 1\<close>.
\<close>

definition pending :: "int \<Rightarrow> bool" where
  "pending w \<longleftrightarrow> w = BREAK \<or> w = CONTINUE"

definition unresolved :: "(int \<Rightarrow> int) \<Rightarrow> int \<Rightarrow> int \<Rightarrow> bool" where
  "unresolved m a b \<longleftrightarrow> (\<exists>i \<in> set [a..b - 1]. pending (m i))"

lemma unresolved_iff: "unresolved m a b \<longleftrightarrow> (\<exists>i. a \<le> i \<and> i < b \<and> pending (m i))"
  by (auto simp: unresolved_def)

text \<open>The word that \<open>backFill\<close> leaves at index \<open>i\<close> of a range that ends before \<open>endp\<close>, where
  it found the word \<open>w\<close>.\<close>

definition filled :: "int \<Rightarrow> int \<Rightarrow> int \<Rightarrow> int" where
  "filled endp i w =
     (if w = BREAK then ord CHR ''|'' OR shl (endp - i - 1) SHIFT
      else if w = CONTINUE then ord CHR ''|'' OR shl (endp - i - 2) SHIFT
      else w)"

lemma backFill_spec:
  "backFill m a b i = (if a \<le> i \<and> i < b then filled b i (m i) else m i)"
proof (induction m a b rule: backFill.induct)
  case (1 m start endp)
  show ?case
  proof (cases "start < endp")
    case True
    define m' where "m' = (if m start = BREAK
           then m(start := ord CHR ''|'' OR shl (endp - start - 1) SHIFT)
           else if m start = CONTINUE
           then m(start := ord CHR ''|'' OR shl (endp - start - 2) SHIFT)
           else m)"
    have u: "backFill m start endp = backFill m' (start + 1) endp"
      using True by (subst backFill.simps) (simp add: m'_def)
    have IH: "backFill m' (start + 1) endp i =
       (if start + 1 \<le> i \<and> i < endp then filled endp i (m' i) else m' i)"
      using 1 [OF True] by (simp add: m'_def)
    show ?thesis
    proof (cases "i = start")
      case True
      with \<open>start < endp\<close> show ?thesis unfolding u IH by (simp add: m'_def filled_def)
    next
      case False
      then have "m' i = m i" by (simp add: m'_def)
      with False show ?thesis unfolding u IH by auto
    qed
  next
    case False
    then show ?thesis by (subst backFill.simps) simp
  qed
qed

lemma jump_not_pending: "\<not> pending (124 OR shl k SHIFT)"
  using opcode_of_shl [of 124 k] by (auto simp: pending_def)

lemma or_not_pending: "\<not> pending w \<Longrightarrow> \<not> pending (w OR shl k SHIFT)"
proof
  assume a: "\<not> pending w" and b: "pending (w OR shl k SHIFT)"
  then obtain c where c: "w OR shl k 8 = c" "c = 39 \<or> c = 96" by (auto simp: pending_def)
  have z: "take_bit 8 (shl k 8) = 0"
    by (simp add: shl_def take_bit_signed_take_bit take_bit_push_bit)
  from c have "drop_bit 8 (w OR shl k 8) = 0" by (auto simp: drop_bit_eq_div)
  then have "drop_bit 8 w = 0" by (simp add: drop_bit_or or_eq_0_iff)
  then have "take_bit 8 w = w" by (simp add: take_bit_eq_self_iff_drop_bit_eq_0)
  moreover from c have "take_bit 8 w OR take_bit 8 (shl k 8) = c"
    by (auto simp: take_bit_or [symmetric] take_bit_int_eq_self)
  ultimately have "w = c" using z by simp
  with c a show False by (auto simp: pending_def)
qed

lemma filled_not_pending: "\<not> pending (filled endp i w)"
  using jump_not_pending by (auto simp: filled_def pending_def)

lemma filled_same: "\<not> pending w \<Longrightarrow> filled endp i w = w"
  by (auto simp: filled_def pending_def)

lemma backFill_resolves: "\<not> unresolved (backFill m a b) a b"
  by (auto simp: unresolved_iff backFill_spec filled_not_pending)

lemma backFill_resolves_from: "a \<le> lo \<Longrightarrow> \<not> unresolved (backFill m a b) lo b"
  using backFill_resolves [of m a b] by (auto simp: unresolved_iff)

lemma backFill_below: "i < a \<Longrightarrow> backFill m a b i = m i"
  by (simp add: backFill_spec)

lemma getNext_mimem: "getNext s = (c, s1) \<Longrightarrow> mimem s1 = mimem s"
  by (auto simp: getNext_def split: if_splits list.splits)

lemma run_length_mimem: "run_length cc rl s = (rl', s') \<Longrightarrow> mimem s' = mimem s"
proof (induction cc rl s arbitrary: rl' s' rule: run_length.induct)
  case (1 cc rl s)
  obtain np s1 where g: "getNext s = (np, s1)" by (cases "getNext s")
  show ?case
  proof (cases "np = cc \<and> cc \<noteq> EOF")
    case True
    with 1 g have "mimem s' = mimem s1" by (simp add: run_length.simps [of cc rl s])
    with getNext_mimem [OF g] show ?thesis by simp
  next
    case False
    with 1(2) g have "s' = unGetNext np s1" by (auto simp: run_length.simps [of cc rl s])
    with getNext_mimem [OF g] show ?thesis by (simp add: unGetNext_def)
  qed
qed

text \<open>The word that the head of the loop writes is a break or a continue exactly when the
  character read is one; for a character that does not repeat, the word is the character.\<close>

lemma next_word_word:
  assumes "next_word cp0 s0 = (cc, rl, s)"
  shows "\<exists>w. mimem s = (mimem s0)(cp0 := w) \<and> (pending w \<longleftrightarrow> cc = BREAK \<or> cc = CONTINUE)
             \<and> (cc \<notin> set (map ord ''+-><^_,.~='') \<longrightarrow> w = cc)"
proof -
  obtain s1 where g: "getNext s0 = (cc, s1)"
    using assms by (cases "getNext s0") (auto simp: next_word_def split: prod.splits)
  show ?thesis
  proof (cases "cc \<in> set (map ord ''+-><^_,.~='')")
    case True
    obtain r2 s2 where r: "run_length cc 1 s1 = (r2, s2)" by (cases "run_length cc 1 s1")
    from assms g r True have s: "s = s2\<lparr>mimem := (mimem s2)(cp0 := cc OR shl r2 SHIFT)\<rparr>"
      by (auto simp: next_word_def)
    from True have c: "0 \<le> cc" "cc < 256" "cc \<noteq> 39" "cc \<noteq> 96" by auto
    from opcode_of_shl [OF c(1,2), of r2] c(3,4) have "\<not> pending (cc OR shl r2 SHIFT)"
      by (auto simp: pending_def)
    with s run_length_mimem [OF r] getNext_mimem [OF g] c True show ?thesis by auto
  next
    case False
    with assms g have s: "s = s1\<lparr>mimem := (mimem s1)(cp0 := cc)\<rparr>"
      by (auto simp: next_word_def shl_def)
    with getNext_mimem [OF g] False show ?thesis by (auto simp: pending_def)
  qed
qed

subsection \<open>The flag \<open>bf\<close>\<close>

text \<open>
  What holds at every turn of the loop of \<open>recCompile\<close> inside an opened construct, for a
  region that starts at \<open>lo\<close>. \<open>opened\<close>: the word at \<open>op\<close> is the one that opened the
  construct (or the \<open>|\<close> of its else branch), a loop or an if was opened below the region, and
  a procedure definition is compiled with \<open>ll = BAD\<close>. \<open>flagged\<close>: if a pending word is in the
  region, then \<open>bf\<close> is set and the construct is inside a loop. \<open>closed\<close> is what then holds
  on return: nothing below \<open>op\<close> was touched, a loop ends in its closing word and holds
  in the region what \<open>backFill\<close> makes of the words that stood there, and a pending word
  is left in the region only by an if, which passes the flag up.
\<close>

definition opened :: "int \<Rightarrow> int \<Rightarrow> int \<Rightarrow> (int \<Rightarrow> int) \<Rightarrow> bool" where
  "opened lo op ll m \<longleftrightarrow>
     0 \<le> op \<and>
     ((m op = ord CHR ''['' \<or> m op = ord CHR ''{'' \<or> m op = ord CHR ''('') \<and> op < lo \<or>
      m op = ord CHR ''|'' \<or>
      m op = ord CHR '':'' \<and> ll = BAD)"

definition flagged :: "int \<Rightarrow> int \<Rightarrow> int \<Rightarrow> int \<Rightarrow> int \<Rightarrow> (int \<Rightarrow> int) \<Rightarrow> bool" where
  "flagged lo cp op ll bf m \<longleftrightarrow>
     opened lo op ll m \<and> op < cp \<and> lo \<le> cp \<and> (unresolved m lo cp \<longrightarrow> bf \<noteq> 0 \<and> ll \<noteq> BAD)"

definition closed :: "int \<Rightarrow> int \<Rightarrow> int \<Rightarrow> int \<Rightarrow> (int \<Rightarrow> int) \<Rightarrow> int \<Rightarrow> int \<Rightarrow> (int \<Rightarrow> int) \<Rightarrow> bool" where
  "closed lo cp0 op ll m0 np f m' \<longleftrightarrow>
     cp0 \<le> np \<and> (\<forall>i<op. m' i = m0 i) \<and> \<not> pending (m' op) \<and>
     (m0 op = ord CHR ''['' \<longrightarrow> m' (np - 1) = ord CHR '']'') \<and>
     (m0 op = ord CHR ''{'' \<longrightarrow> m' (np - 1) = ord CHR ''}'') \<and>
     (m0 op = ord CHR ''['' \<or> m0 op = ord CHR ''{'' \<longrightarrow>
        (\<forall>i. lo \<le> i \<and> i < cp0 \<longrightarrow> m' i = filled np i (m0 i))) \<and>
     (unresolved m' lo np \<longrightarrow>
        f \<noteq> 0 \<and> ll \<noteq> BAD \<and> (m0 op = ord CHR ''('' \<or> m0 op = ord CHR ''|''))"

text \<open>The ways in which the \<open>switch\<close> returns, goes round again, or enters a body.\<close>

lemma switch_Return_cases:
  assumes "recCompile_switch cc rl cp op ll bf s = Return np f s'" and "np \<noteq> BAD"
  shows "(cc = ord CHR '']'' \<and> mimem s op = ord CHR ''['' \<or>
            cc = ord CHR ''}'' \<and> mimem s op = ord CHR ''{'') \<and> np = cp \<and> f = 0 \<and>
           mimem s' = (if bf \<noteq> 0 then backFill (mimem s) (op + 1) cp else mimem s)
         \<or> cc = ord CHR '')'' \<and> (mimem s op = ord CHR ''('' \<or> mimem s op = ord CHR ''|'') \<and>
           np = cp - 1 \<and> f = bf \<and>
           mimem s' = (mimem s)(op := mimem s op OR shl (cp - 1 - op - 1) SHIFT)
         \<or> cc = ord CHR '';'' \<and> mimem s op = ord CHR '':'' \<and> np = cp \<and> f = 0 \<and>
           mimem s' = (mimem s)(op := mimem s op OR shl (cp - op - 1) SHIFT)
         \<or> op = - 1 \<or> mimem s op = ord CHR ''@''"
  using assms by (auto simp: recCompile_switch_def Let_def split: if_splits)

lemma switch_Again_cases:
  assumes "recCompile_switch cc rl cp op ll bf s = Again cp' op' bf' s'"
  shows "cc \<noteq> BREAK \<and> cc \<noteq> CONTINUE \<and> cc \<noteq> ord CHR ''|'' \<and> cc \<noteq> ord CHR ''$'' \<and>
           op' = op \<and> (cp' = cp - 1 \<or> cp' = cp) \<and> bf' = bf \<and> s' = s
         \<or> cc = ord CHR ''$'' \<and> op' = op \<and> cp' = cp \<and> bf' = bf \<and>
           mimem s' = (mimem s)(cp - 1 := ord CHR '';'')
         \<or> cc = ord CHR ''|'' \<and> mimem s op = ord CHR ''('' \<and> cp' = cp \<and> op' = cp - 1 \<and>
           bf' = bf \<and> mimem s' = (mimem s)(op := mimem s op OR shl (cp - op - 1) SHIFT)
         \<or> (cc = BREAK \<or> cc = CONTINUE) \<and> ll \<noteq> BAD \<and> cp' = cp \<and> op' = op \<and>
           bf' = bf OR 1 \<and> s' = s"
  using assms by (auto simp: recCompile_switch_def Let_def split: if_splits)

fun opener_char :: "opener \<Rightarrow> int" where
  "opener_char Open_while = ord CHR ''[''"
| "opener_char Open_until = ord CHR ''{''"
| "opener_char Open_if = ord CHR ''(''"
| "opener_char Open_def = ord CHR '':''"

lemma switch_Enter_cases:
  assumes "recCompile_switch cc rl cp op ll bf s = Enter k cp' s'"
  shows "cp' = cp \<and> s' = s \<and> cc = opener_char k"
  using assms by (cases k) (auto simp: recCompile_switch_def Let_def split: if_splits)

lemma or_one_not_0: "(bf::int) OR 1 \<noteq> 0"
  by (simp add: or_eq_0_iff)

lemma patched_not_pending:
  "w = ord CHR ''['' \<or> w = ord CHR ''{'' \<or> w = ord CHR ''('' \<or> w = ord CHR ''|'' \<or> w = ord CHR '':''
   \<Longrightarrow> \<not> pending (w OR shl k SHIFT)"
  by (rule or_not_pending) (auto simp: pending_def)

lemma opened_not_pending: "opened lo op ll m \<Longrightarrow> \<not> pending (m op)"
  by (auto simp: opened_def pending_def)

lemma switch_Return:
  assumes fl: "flagged lo cp0 op ll bf m0"
    and m: "mimem s = m0(cp0 := w)" and w: "pending w \<longleftrightarrow> cc = BREAK \<or> cc = CONTINUE"
    and wc: "cc \<notin> set (map ord ''+-><^_,.~='') \<longrightarrow> w = cc"
    and sw: "recCompile_switch cc rl (cp0 + 1) op ll bf s = Return np f s'" and nb: "np \<noteq> BAD"
  shows "closed lo cp0 op ll m0 np f (mimem s')"
proof -
  from fl have o: "opened lo op ll m0" and lt: "op < cp0" and lo: "lo \<le> cp0"
    and U: "unresolved m0 lo cp0 \<Longrightarrow> bf \<noteq> 0 \<and> ll \<noteq> BAD"
    by (auto simp: flagged_def)
  from m lt have mop: "mimem s op = m0 op" by simp
  from switch_Return_cases [OF sw nb] consider
    (loop) "cc = ord CHR '']'' \<and> m0 op = ord CHR ''['' \<or> cc = ord CHR ''}'' \<and> m0 op = ord CHR ''{''"
           "np = cp0 + 1" "f = 0"
           "mimem s' = (if bf \<noteq> 0 then backFill (mimem s) (op + 1) (cp0 + 1) else mimem s)"
  | (cond) "cc = ord CHR '')''" "m0 op = ord CHR ''('' \<or> m0 op = ord CHR ''|''"
           "np = cp0" "f = bf"
           "mimem s' = (mimem s)(op := m0 op OR shl (cp0 + 1 - 1 - op - 1) SHIFT)"
  | (defn) "cc = ord CHR '';''" "m0 op = ord CHR '':''" "np = cp0 + 1" "f = 0"
           "mimem s' = (mimem s)(op := m0 op OR shl (cp0 + 1 - op - 1) SHIFT)"
  | (top) "op = - 1 \<or> m0 op = ord CHR ''@''"
    unfolding mop by auto
  then show ?thesis
  proof cases
    case loop
    from loop(1) w have nw: "\<not> pending w" by auto
    from loop(1) wc have wcc: "w = cc" by auto
    from loop(1) o have "op < lo" by (auto simp: opened_def)
    have below: "mimem s' i = m0 i" if "i < op" for i
      using that lt m loop(4) by (simp add: backFill_below)
    have "\<not> unresolved (mimem s') lo (cp0 + 1)"
    proof (cases "bf = 0")
      case True
      with U have "\<not> unresolved m0 lo cp0" by auto
      with nw m loop(4) True show ?thesis by (auto simp: unresolved_iff)
    next
      case False
      with loop(4) \<open>op < lo\<close> show ?thesis by (simp add: backFill_resolves_from)
    qed
    moreover have "mimem s' op = m0 op"
      using lt m loop(4) by (simp add: backFill_below)
    moreover have "mimem s' cp0 = cc"
      using nw wcc m loop(4) by (auto simp: backFill_spec filled_same)
    moreover have "mimem s' i = filled (cp0 + 1) i (m0 i)" if "lo \<le> i" "i < cp0" for i
    proof (cases "bf = 0")
      case True
      with U that have "\<not> pending (m0 i)" by (auto simp: unresolved_iff)
      with True that m loop(4) show ?thesis by (simp add: filled_same)
    next
      case False
      with that m loop(4) \<open>op < lo\<close> show ?thesis by (simp add: backFill_spec)
    qed
    ultimately show ?thesis using below loop(1,2) opened_not_pending [OF o]
      by (auto simp: closed_def)
  next
    case cond
    have p: "\<not> pending (m0 op OR shl (cp0 + 1 - 1 - op - 1) SHIFT)"
      using cond(2) by (intro patched_not_pending) auto
    have "unresolved m0 lo cp0" if "unresolved (mimem s') lo cp0"
    proof -
      from that obtain i where i: "lo \<le> i" "i < cp0" "pending (mimem s' i)"
        by (auto simp: unresolved_iff)
      with p cond(5) have "i \<noteq> op" by auto
      with i m cond(5) have "pending (m0 i)" by simp
      with i show ?thesis by (auto simp: unresolved_iff)
    qed
    with U cond m lt p show ?thesis by (auto simp: closed_def)
  next
    case defn
    from defn(2) o have "ll = BAD" by (auto simp: opened_def)
    with U have nu: "\<not> unresolved m0 lo cp0" by auto
    from defn(1) w have nw: "\<not> pending w" by (auto simp: pending_def)
    have p: "\<not> pending (m0 op OR shl (cp0 + 1 - op - 1) SHIFT)"
      using defn(2) by (intro patched_not_pending) auto
    have "\<not> unresolved (mimem s') lo (cp0 + 1)"
    proof
      assume "unresolved (mimem s') lo (cp0 + 1)"
      then obtain i where i: "lo \<le> i" "i < cp0 + 1" "pending (mimem s' i)"
        by (auto simp: unresolved_iff)
      with p defn(5) have "i \<noteq> op" by auto
      with i m defn(5) nw have "i \<noteq> cp0" "pending (m0 i)" by (auto split: if_splits)
      with i nu show False by (auto simp: unresolved_iff)
    qed
    with defn m lt p show ?thesis by (auto simp: closed_def)
  next
    case top
    with o show ?thesis by (auto simp: opened_def)
  qed
qed

lemma switch_Again:
  assumes fl: "flagged lo cp0 op ll bf m0"
    and m: "mimem s = m0(cp0 := w)" and w: "pending w \<longleftrightarrow> cc = BREAK \<or> cc = CONTINUE"
    and wc: "cc \<notin> set (map ord ''+-><^_,.~='') \<longrightarrow> w = cc"
    and sw: "recCompile_switch cc rl (cp0 + 1) op ll bf s = Again cp op' bf' s'"
  shows "flagged lo cp op' ll bf' (mimem s') \<and> cp0 \<le> cp \<and> op \<le> op' \<and>
         (\<forall>i<cp0. i \<noteq> op \<longrightarrow> mimem s' i = m0 i) \<and> \<not> pending (mimem s' op) \<and>
         (op' = op \<and> mimem s' op = m0 op \<or>
          op < op' \<and> m0 op = ord CHR ''('' \<and> mimem s' op' = ord CHR ''|'')"
proof -
  from fl have o: "opened lo op ll m0" and lt: "op < cp0" and lo: "lo \<le> cp0"
    and U: "unresolved m0 lo cp0 \<Longrightarrow> bf \<noteq> 0 \<and> ll \<noteq> BAD"
    by (auto simp: flagged_def)
  from m lt have mop: "mimem s op = m0 op" by simp
  from switch_Again_cases [OF sw] consider
    (plain) "cc \<noteq> BREAK" "cc \<noteq> CONTINUE" "op' = op" "cp = cp0 \<or> cp = cp0 + 1" "bf' = bf" "s' = s"
  | (tail) "cc = ord CHR ''$''" "op' = op" "cp = cp0 + 1" "bf' = bf"
           "mimem s' = (mimem s)(cp0 := ord CHR '';'')"
  | (alt) "cc = ord CHR ''|''" "m0 op = ord CHR ''(''" "cp = cp0 + 1" "op' = cp0" "bf' = bf"
          "mimem s' = (mimem s)(op := m0 op OR shl (cp0 + 1 - op - 1) SHIFT)"
  | (jump) "cc = BREAK \<or> cc = CONTINUE" "ll \<noteq> BAD" "cp = cp0 + 1" "op' = op"
           "bf' = bf OR 1" "s' = s"
    unfolding mop by auto
  then show ?thesis
  proof cases
    case plain
    from plain(1,2) w have nw: "\<not> pending w" by auto
    have "unresolved m0 lo cp0" if "unresolved (mimem s') lo cp"
      using that plain(4,6) m nw by (auto simp: unresolved_iff split: if_splits)
    moreover have "opened lo op ll (mimem s')" using o plain(6) m lt by (simp add: opened_def)
    ultimately show ?thesis using U plain m lt lo opened_not_pending [OF o]
      by (auto simp: flagged_def)
  next
    case tail
    have "unresolved m0 lo cp0" if "unresolved (mimem s') lo cp"
      using that tail m by (auto simp: unresolved_iff pending_def split: if_splits)
    moreover have "opened lo op ll (mimem s')" using o tail m lt by (simp add: opened_def)
    ultimately show ?thesis using U tail m lt lo opened_not_pending [OF o]
      by (auto simp: flagged_def)
  next
    case alt
    from alt(1) wc have "w = ord CHR ''|''" by auto
    with alt m lt have open': "mimem s' cp0 = ord CHR ''|''" by simp
    have p: "\<not> pending (m0 op OR shl (cp0 + 1 - op - 1) SHIFT)"
      using alt(2) by (intro patched_not_pending) auto
    from alt(1) w have nw: "\<not> pending w" by (auto simp: pending_def)
    have "unresolved m0 lo cp0" if "unresolved (mimem s') lo cp"
    proof -
      from that alt obtain i where i: "lo \<le> i" "i < cp0 + 1" "pending (mimem s' i)"
        by (auto simp: unresolved_iff)
      with p alt(6) have "i \<noteq> op" by auto
      with i m alt(6) nw have "i \<noteq> cp0" "pending (m0 i)" by (auto split: if_splits)
      with i show ?thesis by (auto simp: unresolved_iff)
    qed
    moreover have "opened lo cp0 ll (mimem s')"
      using o lt open' by (simp add: opened_def)
    ultimately show ?thesis using U alt m lt lo p open' by (auto simp: flagged_def)
  next
    case jump
    have "opened lo op ll (mimem s')" using o jump(6) m lt by (simp add: opened_def)
    then show ?thesis using jump m lt lo or_one_not_0 [of bf] opened_not_pending [OF o]
      by (auto simp: flagged_def)
  qed
qed

lemma closed_trans:
  assumes "closed lo cp op' ll m1 np f m'" and "cp0 \<le> cp" and "op \<le> op'" and "op < cp0"
    and "\<forall>i<cp0. i \<noteq> op \<longrightarrow> m1 i = m0 i" and "\<not> pending (m1 op)"
    and "op' = op \<and> m1 op = m0 op \<or>
         op < op' \<and> m0 op = ord CHR ''('' \<and> m1 op' = ord CHR ''|''"
    and "m0 op = ord CHR ''['' \<or> m0 op = ord CHR ''{'' \<longrightarrow> op < lo"
  shows "closed lo cp0 op ll m0 np f m'"
proof (cases "op = op'")
  case True
  from assms(4,5) have below: "\<forall>i<op. m1 i = m0 i" by auto
  have "m' i = filled np i (m0 i)"
    if "m0 op = ord CHR ''['' \<or> m0 op = ord CHR ''{''" "lo \<le> i" "i < cp0" for i
  proof -
    from that assms(8) have "i \<noteq> op" by auto
    with that assms(5) have "m1 i = m0 i" by auto
    moreover from that assms(1,2,7) True have "m' i = filled np i (m1 i)"
      by (auto simp: closed_def)
    ultimately show ?thesis by simp
  qed
  with assms(1,2,6,7) True below show ?thesis by (auto simp: closed_def)
next
  case False
  with assms(3) have lt: "op < op'" by simp
  with assms(1) have "m' op = m1 op" by (auto simp: closed_def)
  moreover from assms(4,5) have "\<forall>i<op. m1 i = m0 i" by auto
  ultimately show ?thesis using assms(1,2,6,7) lt False by (auto simp: closed_def)
qed

lemma resume_flagged:
  assumes fl: "flagged lo cp0 op ll bf m0"
    and m: "mimem s = m0(cp0 := opener_char k)"
    and cl: "closed (cp0 + 1) (cp0 + 1) cp0 (body_ll k (cp0 + 1) ll) (mimem s) a b (mimem s3)"
    and r: "resume k (cp0 + 1) a b bf s3 = (cp', bf', s4)"
  shows "flagged lo cp' op ll bf' (mimem s4) \<and> cp0 \<le> cp' \<and> (\<forall>i<cp0. mimem s4 i = m0 i)"
proof -
  from fl have o: "opened lo op ll m0" and lt: "op < cp0" and lo: "lo \<le> cp0"
    and U: "unresolved m0 lo cp0 \<Longrightarrow> bf \<noteq> 0 \<and> ll \<noteq> BAD"
    by (auto simp: flagged_def)
  from cl m have a: "cp0 + 1 \<le> a" and below: "\<And>i. i < cp0 \<Longrightarrow> mimem s3 i = m0 i"
    and np: "\<not> pending (mimem s3 cp0)"
    and V: "unresolved (mimem s3) (cp0 + 1) a \<Longrightarrow>
              b \<noteq> 0 \<and> body_ll k (cp0 + 1) ll \<noteq> BAD \<and> (opener_char k = 40 \<or> opener_char k = 124)"
    by (auto simp: closed_def)
  have old: "unresolved m0 lo cp0" if "lo \<le> i" "i < cp0" "pending (mimem s3 i)" for i
    using that below by (auto simp: unresolved_iff)
  have body: "unresolved (mimem s3) (cp0 + 1) a" if "cp0 < i" "i < a" "pending (mimem s3 i)" for i
    using that by (auto simp: unresolved_iff intro!: exI [of _ i])
  have op3: "opened lo op ll m" if "\<And>i. i < cp0 \<Longrightarrow> m i = m0 i" for m
    using o lt that by (simp add: opened_def)
  show ?thesis
  proof (cases k)
    case Open_while
    with V have nb: "\<not> unresolved (mimem s3) (cp0 + 1) a" by auto
    define m3 where "m3 = patch_loop (cp0 + 1) a (mimem s3)"
    have p: "\<not> pending (m3 i)" if "\<not> pending (mimem s3 i)" for i
      using that by (auto simp: m3_def patch_loop_def Let_def or_not_pending)
    have b3: "m3 i = m0 i" if "i < cp0" for i
      using that a below by (simp add: m3_def patch_loop_def Let_def)
    have u: "unresolved m0 lo cp0" if "unresolved m3 lo a"
    proof -
      from that obtain i where i: "lo \<le> i" "i < a" "pending (m3 i)" by (auto simp: unresolved_iff)
      with p have q: "pending (mimem s3 i)" by auto
      with np have "i \<noteq> cp0" by auto
      with body [of i] nb i q have "i < cp0" by (cases "cp0 < i") auto
      with old [of i] i q show ?thesis by simp
    qed
    from r Open_while consider
        (drop) "cp' = cp0" "bf' = bf" "mimem s4 = m3"
      | (zero) "cp' = cp0 + 1" "bf' = bf" "mimem s4 = m3(cp0 := ZERO)"
      | (keep) "cp' = a" "bf' = bf" "mimem s4 = m3"
      by (auto simp: close_while_def Let_def m3_def split: if_splits)
    then show ?thesis
    proof cases
      case drop
      have "unresolved m0 lo cp0" if "unresolved (mimem s4) lo cp0"
        using that drop b3 by (auto simp: unresolved_iff)
      with U drop b3 op3 [of m3] lt lo show ?thesis by (auto simp: flagged_def)
    next
      case zero
      have "unresolved m0 lo cp0" if "unresolved (mimem s4) lo (cp0 + 1)"
        using that zero b3 by (auto simp: unresolved_iff pending_def split: if_splits)
      moreover have "opened lo op ll (mimem s4)" using zero b3 by (intro op3) simp
      ultimately show ?thesis using U zero b3 lt lo by (auto simp: flagged_def)
    next
      case keep
      with u U b3 op3 [of m3] lt lo a show ?thesis by (auto simp: flagged_def)
    qed
  next
    case Open_until
    with V have nb: "\<not> unresolved (mimem s3) (cp0 + 1) a" by auto
    define m3 where "m3 = patch_loop (cp0 + 1) a (mimem s3)"
    have p: "\<not> pending (m3 i)" if "\<not> pending (mimem s3 i)" for i
      using that by (auto simp: m3_def patch_loop_def Let_def or_not_pending)
    have b3: "m3 i = m0 i" if "i < cp0" for i
      using that a below by (simp add: m3_def patch_loop_def Let_def)
    have u: "unresolved m0 lo cp0" if "unresolved m3 lo a"
    proof -
      from that obtain i where i: "lo \<le> i" "i < a" "pending (m3 i)" by (auto simp: unresolved_iff)
      with p have q: "pending (mimem s3 i)" by auto
      with np have "i \<noteq> cp0" by auto
      with body [of i] nb i q have "i < cp0" by (cases "cp0 < i") auto
      with old [of i] i q show ?thesis by simp
    qed
    from r Open_until consider
        (drop) "cp' = cp0" "bf' = bf" "mimem s4 = m3"
      | (keep) "cp' = a" "bf' = bf" "mimem s4 = m3"
      by (auto simp: close_until_def Let_def m3_def split: if_splits)
    then show ?thesis
    proof cases
      case drop
      have "unresolved m0 lo cp0" if "unresolved (mimem s4) lo cp0"
        using that drop b3 by (auto simp: unresolved_iff)
      with U drop b3 op3 [of m3] lt lo show ?thesis by (auto simp: flagged_def)
    next
      case keep
      with u U b3 op3 [of m3] lt lo a show ?thesis by (auto simp: flagged_def)
    qed
  next
    case Open_if
    with r have e: "cp' = a" "bf' = bf OR b" "s4 = s3" by auto
    have "bf OR b \<noteq> 0 \<and> ll \<noteq> BAD" if "unresolved (mimem s3) lo a"
    proof -
      from that obtain i where i: "lo \<le> i" "i < a" "pending (mimem s3 i)"
        by (auto simp: unresolved_iff)
      with np have "i \<noteq> cp0" by auto
      then consider "i < cp0" | "cp0 < i" by linarith
      then show ?thesis
      proof cases
        case 1
        with old [of i] i U show ?thesis by (auto simp: or_eq_0_iff)
      next
        case 2
        with body [of i] i V Open_if show ?thesis by (auto simp: or_eq_0_iff)
      qed
    qed
    with e below op3 [of "mimem s3"] lt lo a show ?thesis by (auto simp: flagged_def)
  next
    case Open_def
    with r have e: "cp' = a" "bf' = bf" "s4 = s3" by auto
    from V Open_def have nb: "\<not> unresolved (mimem s3) (cp0 + 1) a" by auto
    have "unresolved m0 lo cp0" if "unresolved (mimem s3) lo a"
    proof -
      from that obtain i where i: "lo \<le> i" "i < a" "pending (mimem s3 i)"
        by (auto simp: unresolved_iff)
      with np have "i \<noteq> cp0" by auto
      with body [of i] nb i have "i < cp0" by (cases "cp0 < i") auto
      with old [of i] i show ?thesis by simp
    qed
    with U e below op3 [of "mimem s3"] lt lo a show ?thesis by (auto simp: flagged_def)
  qed
qed

lemma recCompile_loop_closed:
  "recCompile_loop cp0 op ll bf s0 = (np, f, s') \<Longrightarrow> np \<noteq> BAD \<Longrightarrow>
   flagged lo cp0 op ll bf (mimem s0) \<Longrightarrow>
   closed lo cp0 op ll (mimem s0) np f (mimem s')"
proof (induction cp0 op ll bf s0 arbitrary: lo np f s' rule: recCompile_loop.induct)
  case (1 cp0 op ll bf s0)
  obtain cc rl s where nw: "next_word cp0 s0 = (cc, rl, s)" by (cases "next_word cp0 s0")
  from next_word_word [OF nw] obtain w where m: "mimem s = (mimem s0)(cp0 := w)"
    and w: "pending w \<longleftrightarrow> cc = BREAK \<or> cc = CONTINUE"
    and wc: "cc \<notin> set (map ord ''+-><^_,.~='') \<longrightarrow> w = cc"
    by blast
  note IH = "1.IH" [OF nw [symmetric] refl]
  note P = "1.prems"(1) [unfolded recCompile_loop.simps [of cp0 op ll bf s0] nw prod.case]
  note nb = "1.prems"(2)
  note fl = "1.prems"(3)
  from fl have lt: "op < cp0" and op0: "0 \<le> op" by (auto simp: flagged_def opened_def)
  from fl have lo': "mimem s0 op = ord CHR ''['' \<or> mimem s0 op = ord CHR ''{'' \<longrightarrow> op < lo"
    by (auto simp: flagged_def opened_def)
  show ?case
  proof (cases "recCompile_switch cc rl (cp0 + 1) op ll bf s")
    case (Return a b c)
    with P have "a = np" "b = f" "c = s'" by simp_all
    with Return have "recCompile_switch cc rl (cp0 + 1) op ll bf s = Return np f s'" by simp
    from switch_Return [OF fl m w wc this nb] show ?thesis .
  next
    case (Again cp op' bf' s1)
    with P have e: "recCompile_loop cp op' ll bf' s1 = (np, f, s')" by simp
    from switch_Again [OF fl m w wc Again]
    have A: "flagged lo cp op' ll bf' (mimem s1)" "cp0 \<le> cp" "op \<le> op'"
      "\<forall>i<cp0. i \<noteq> op \<longrightarrow> mimem s1 i = mimem s0 i" "\<not> pending (mimem s1 op)"
      "op' = op \<and> mimem s1 op = mimem s0 op \<or>
       op < op' \<and> mimem s0 op = ord CHR ''('' \<and> mimem s1 op' = ord CHR ''|''"
      by blast+
    from IH(1) [OF Again e nb A(1)] have "closed lo cp op' ll (mimem s1) np f (mimem s')" .
    from closed_trans [OF this A(2,3) lt A(4-6) lo'] show ?thesis .
  next
    case (Enter k cp s1)
    from switch_Enter_cases [OF Enter] have k: "cp = cp0 + 1" "s1 = s" "cc = opener_char k"
      by simp_all
    from k(3) wc have "w = opener_char k" by (cases k) auto
    with m have m': "mimem s = (mimem s0)(cp0 := opener_char k)" by simp
    obtain a b c where n: "recCompile_loop cp (cp - 1) (body_ll k cp ll) 0 s1 = (a, b, c)"
      by (cases "recCompile_loop cp (cp - 1) (body_ll k cp ll) 0 s1")
    from P Enter n nb have ab: "a \<noteq> BAD" by (auto split: if_splits)
    have "opened cp (cp - 1) (body_ll k cp ll) (mimem s1)"
      using k m' lt op0 by (cases k) (auto simp: opened_def)
    then have "flagged cp cp (cp - 1) (body_ll k cp ll) 0 (mimem s1)"
      by (simp add: flagged_def unresolved_iff)
    from IH(2) [OF Enter n ab this]
    have cl: "closed (cp0 + 1) (cp0 + 1) cp0 (body_ll k (cp0 + 1) ll) (mimem s) a b (mimem c)"
      using k by simp
    obtain cp' bf' s4 where r: "resume k cp a b bf c = (cp', bf', s4)"
      by (cases "resume k cp a b bf c")
    with P Enter n ab have e: "recCompile_loop cp' op ll bf' s4 = (np, f, s')" by simp
    from r k have "resume k (cp0 + 1) a b bf c = (cp', bf', s4)" by simp
    from resume_flagged [OF fl m' cl this]
    have R: "flagged lo cp' op ll bf' (mimem s4)" "cp0 \<le> cp'" "\<forall>i<cp0. mimem s4 i = mimem s0 i"
      by blast+
    from IH(3) [OF Enter n [symmetric] refl ab r [symmetric] refl e nb R(1)]
    have c4: "closed lo cp' op ll (mimem s4) np f (mimem s')" .
    from R(3) lt have same: "mimem s4 op = mimem s0 op"
      "\<forall>i<cp0. i \<noteq> op \<longrightarrow> mimem s4 i = mimem s0 i" by auto
    from fl have "\<not> pending (mimem s0 op)" by (auto simp: flagged_def opened_not_pending)
    with same have "\<not> pending (mimem s4 op)" by simp
    from closed_trans [OF c4 R(2) order_refl lt same(2) this _ lo'] same(1) show ?thesis by simp
  qed
qed

subsection \<open>The turns of the loop\<close>

text \<open>
  A turn of the loop \<open>while (1)\<close> of \<open>recCompile\<close> that goes round again, with the call for
  the body where the \<open>switch\<close> makes one: the values of \<open>cp\<close>, \<open>op\<close> and \<open>bf\<close> and the source
  at the next turn. It is \<open>None\<close> for the turn that returns. \<open>recCompile_turns k\<close> is \<open>k\<close>
  such turns.
\<close>

definition recCompile_turn ::
  "int \<Rightarrow> int \<Rightarrow> int \<Rightarrow> int \<Rightarrow> source \<Rightarrow> (int \<times> int \<times> int \<times> source) option" where
  "recCompile_turn cp0 op ll bf s0 =
     (case next_word cp0 s0 of
        (cc, rl, s) \<Rightarrow>
          (case recCompile_switch cc rl (cp0 + 1) op ll bf s of
             Return np f s' \<Rightarrow> None
           | Again cp op' bf' s' \<Rightarrow> Some (cp, op', bf', s')
           | Enter k cp s' \<Rightarrow>
               (case recCompile_loop cp (cp - 1) (body_ll k cp ll) 0 s' of
                  (np, f, s3) \<Rightarrow>
                    if np = BAD then None
                    else (case resume k cp np f bf s3 of
                            (cp', bf', s4) \<Rightarrow> Some (cp', op, bf', s4)))))"

fun recCompile_turns ::
  "nat \<Rightarrow> int \<Rightarrow> int \<Rightarrow> int \<Rightarrow> int \<Rightarrow> source \<Rightarrow> (int \<times> int \<times> int \<times> source) option" where
  "recCompile_turns 0 cp op ll bf s = Some (cp, op, bf, s)"
| "recCompile_turns (Suc k) cp op ll bf s =
     (case recCompile_turn cp op ll bf s of
        None \<Rightarrow> None
      | Some (cp', op', bf', s') \<Rightarrow> recCompile_turns k cp' op' ll bf' s')"

lemma recCompile_loop_turn:
  assumes "recCompile_turn cp0 op ll bf s0 = Some (cp, op', bf', s')"
  shows "recCompile_loop cp0 op ll bf s0 = recCompile_loop cp op' ll bf' s'"
proof -
  obtain cc rl s where nw: "next_word cp0 s0 = (cc, rl, s)" by (cases "next_word cp0 s0")
  show ?thesis
  proof (cases "recCompile_switch cc rl (cp0 + 1) op ll bf s")
    case (Return a b c)
    with assms nw show ?thesis by (simp add: recCompile_turn_def)
  next
    case (Again a b c d)
    with assms nw recCompile_loop_Again [OF nw Again] show ?thesis
      by (simp add: recCompile_turn_def)
  next
    case (Enter k a c)
    obtain np f s3 where n: "recCompile_loop a (a - 1) (body_ll k a ll) 0 c = (np, f, s3)"
      by (cases "recCompile_loop a (a - 1) (body_ll k a ll) 0 c")
    obtain x y z where r: "resume k a np f bf s3 = (x, y, z)" by (cases "resume k a np f bf s3")
    from assms nw Enter n r have e: "np \<noteq> BAD" "x = cp" "op' = op" "y = bf'" "z = s'"
      by (auto simp: recCompile_turn_def split: if_splits)
    from recCompile_loop_Enter [OF nw Enter n refl refl e(1) r] e show ?thesis by simp
  qed
qed

lemma recCompile_loop_last_turn:
  assumes "recCompile_turn cp0 op ll bf s0 = None"
    and "recCompile_loop cp0 op ll bf s0 = (np, f, s')" and "np \<noteq> BAD"
  shows "\<exists>cc rl s. next_word cp0 s0 = (cc, rl, s) \<and>
                   recCompile_switch cc rl (cp0 + 1) op ll bf s = Return np f s'"
proof -
  obtain cc rl s where nw: "next_word cp0 s0 = (cc, rl, s)" by (cases "next_word cp0 s0")
  show ?thesis
  proof (cases "recCompile_switch cc rl (cp0 + 1) op ll bf s")
    case (Return a b c)
    with recCompile_loop_Return [OF nw Return] assms(2) nw show ?thesis by simp
  next
    case (Again a b c d)
    with assms(1) nw show ?thesis by (simp add: recCompile_turn_def)
  next
    case (Enter k a c)
    obtain x y z where n: "recCompile_loop a (a - 1) (body_ll k a ll) 0 c = (x, y, z)"
      by (cases "recCompile_loop a (a - 1) (body_ll k a ll) 0 c")
    with assms(1) nw Enter have "x = BAD" by (auto simp: recCompile_turn_def split: if_splits prod.splits)
    with recCompile_loop_Enter_BAD [OF nw Enter] n assms(2,3) show ?thesis by simp
  qed
qed

text \<open>A turn keeps what holds at every turn, and in the body of a loop it leaves the
  region and the opening word as they are.\<close>

lemma recCompile_turn_flagged:
  assumes fl: "flagged lo cp0 op ll bf (mimem s0)"
    and t: "recCompile_turn cp0 op ll bf s0 = Some (cp, op', bf', s')"
  shows "flagged lo cp op' ll bf' (mimem s') \<and> cp0 \<le> cp \<and>
         (\<forall>i<cp0. i \<noteq> op \<longrightarrow> mimem s' i = mimem s0 i) \<and>
         (op' = op \<and> mimem s' op = mimem s0 op \<or>
          op < op' \<and> mimem s0 op = ord CHR ''('' \<and> mimem s' op' = ord CHR ''|'')"
proof -
  obtain cc rl s where nw: "next_word cp0 s0 = (cc, rl, s)" by (cases "next_word cp0 s0")
  from next_word_word [OF nw] obtain w where m: "mimem s = (mimem s0)(cp0 := w)"
    and w: "pending w \<longleftrightarrow> cc = BREAK \<or> cc = CONTINUE"
    and wc: "cc \<notin> set (map ord ''+-><^_,.~='') \<longrightarrow> w = cc"
    by blast
  from fl have lt: "op < cp0" and op0: "0 \<le> op" by (auto simp: flagged_def opened_def)
  show ?thesis
  proof (cases "recCompile_switch cc rl (cp0 + 1) op ll bf s")
    case (Return a b c)
    with t nw show ?thesis by (simp add: recCompile_turn_def)
  next
    case (Again a b c d)
    with t nw have "a = cp" "b = op'" "c = bf'" "d = s'" by (simp_all add: recCompile_turn_def)
    with Again have "recCompile_switch cc rl (cp0 + 1) op ll bf s = Again cp op' bf' s'" by simp
    from switch_Again [OF fl m w wc this] show ?thesis by blast
  next
    case (Enter k a c)
    from switch_Enter_cases [OF Enter] have k: "a = cp0 + 1" "c = s" "cc = opener_char k"
      by simp_all
    from k(3) wc have "w = opener_char k" by (cases k) auto
    with m have m': "mimem s = (mimem s0)(cp0 := opener_char k)" by simp
    obtain np f s3 where n: "recCompile_loop a (a - 1) (body_ll k a ll) 0 c = (np, f, s3)"
      by (cases "recCompile_loop a (a - 1) (body_ll k a ll) 0 c")
    obtain x y z where r: "resume k a np f bf s3 = (x, y, z)" by (cases "resume k a np f bf s3")
    from t nw Enter n r have e: "np \<noteq> BAD" "x = cp" "op' = op" "y = bf'" "z = s'"
      by (auto simp: recCompile_turn_def split: if_splits)
    have "opened a (a - 1) (body_ll k a ll) (mimem c)"
      using k m' lt op0 by (cases k) (auto simp: opened_def)
    then have "flagged a a (a - 1) (body_ll k a ll) 0 (mimem c)"
      by (simp add: flagged_def unresolved_iff)
    from recCompile_loop_closed [OF n e(1) this]
    have cl: "closed (cp0 + 1) (cp0 + 1) cp0 (body_ll k (cp0 + 1) ll) (mimem s) np f (mimem s3)"
      using k by simp
    from r k e have "resume k (cp0 + 1) np f bf s3 = (cp, bf', s')" by simp
    from resume_flagged [OF fl m' cl this] e(3) lt show ?thesis by auto
  qed
qed

lemma recCompile_turns_flagged:
  assumes "recCompile_turns k cp0 op ll bf s0 = Some (cpk, opk, bfk, sk)"
    and "flagged lo cp0 op ll bf (mimem s0)"
    and "mimem s0 op = ord CHR ''['' \<or> mimem s0 op = ord CHR ''{''"
  shows "flagged lo cpk op ll bfk (mimem sk) \<and> opk = op \<and> mimem sk op = mimem s0 op \<and>
         recCompile_loop cpk op ll bfk sk = recCompile_loop cp0 op ll bf s0"
  using assms
proof (induction k arbitrary: cp0 bf s0)
  case 0
  then show ?case by simp
next
  case (Suc k)
  from Suc.prems(1) obtain cp1 op1 bf1 s1
    where t: "recCompile_turn cp0 op ll bf s0 = Some (cp1, op1, bf1, s1)"
      and r: "recCompile_turns k cp1 op1 ll bf1 s1 = Some (cpk, opk, bfk, sk)"
    by (auto split: option.splits)
  from recCompile_turn_flagged [OF Suc.prems(2) t] Suc.prems(3)
  have f1: "flagged lo cp1 op ll bf1 (mimem s1)" and o1: "op1 = op"
    and m1: "mimem s1 op = mimem s0 op"
    by auto
  from Suc.IH [OF r [unfolded o1] f1] m1 Suc.prems(3) recCompile_loop_turn [OF t] o1
  show ?case by simp
qed

subsection \<open>The jumps that replace them\<close>

text \<open>A jump word whose distance fits, dispatched.\<close>

lemma jump_lands:
  assumes "Gimem st (pc me) = ord CHR ''|'' OR shl k SHIFT"
    and "- (2 ^ 23) \<le> k" and "k < 2 ^ 23"
  shows "dispatch cost quanta me st = Some (Next cost, me\<lparr>pc := pc me + 1 + k\<rparr>, st)"
  using assms opcode_of_word [of 124 k] immediate_of_word [of 124 k]
  by (simp add: dispatch_def Let_def shl_small)

text \<open>A jump over \<open>2 ^ 23\<close> words: the shift overflows, the word is negative, and the
  program counter goes back by as much instead.\<close>

lemma far_jump_goes_back:
  assumes "m 1 = BREAK" and "Gimem st 1 = backFill m 1 8388610 1" and "pc me = 1"
  shows "backFill m 1 8388610 1 = - 2147483524"
    and "dispatch cost quanta me st = Some (Next cost, me\<lparr>pc := - 8388606\<rparr>, st)"
proof -
  show w: "backFill m 1 8388610 1 = - 2147483524"
    using assms(1) by (simp add: backFill_spec filled_def shl_def)
  have "(- 2147483524 :: int) AND 255 = 124" "drop_bit 8 (- 2147483524 :: int) = - 8388608"
    by (simp_all add: and_IMASK drop_bit_eq_div)
  with assms(2,3) w show "dispatch cost quanta me st = Some (Next cost, me\<lparr>pc := - 8388606\<rparr>, st)"
    by (simp add: dispatch_def Let_def)
qed

text \<open>An if inside a loop leaves its breaks and continues as they are and passes the flag up
  to the caller: the \<open>(\<close> case calls \<open>recCompile\<close> with \<open>&bf\<close>.\<close>

lemma if_passes_flag_up:
  assumes "recCompile cp ll s = (np, f, s')" and "np \<noteq> BAD" and "0 < cp"
    and "mimem s (cp - 1) = ord CHR ''(''"
  shows "unresolved (mimem s') cp np \<longrightarrow> f \<noteq> 0 \<and> ll \<noteq> BAD"
proof -
  have "flagged cp cp (cp - 1) ll 0 (mimem s)"
    using assms(3,4) by (simp add: flagged_def opened_def unresolved_iff)
  from recCompile_loop_closed [OF assms(1) [unfolded recCompile_def] assms(2) this]
  show ?thesis by (simp add: closed_def)
qed

text \<open>The body of the loop in \<open>+[>('|`)<]\<close>, read from index 2 after \<open>+[\<close> was compiled: a break
  in the then branch of an if and a continue in its else branch.\<close>

definition loop_body :: source where
  "loop_body =
     \<lparr>mimem = (\<lambda>i. 0)(0 := 299, 1 := 91),
      fin = map ord ''>('' @ [BREAK] @ map ord ''|'' @ [CONTINUE] @ map ord '')<]'',
      feof = False, getNext_done = BAD\<rparr>"

lemma loop_body_compiled:
  "(case recCompile 2 2 loop_body of (np, f, s') \<Rightarrow> (np, f, map (mimem s') [2, 3, 4, 5, 6, 7, 8]))
     = (9, 0, [318, 552, 1148, 380, 380, 316, 93])"
  by (simp add: loop_body_def recCompile_def recCompile_loop.simps next_word_def getNext_def accepted_def
        run_length.simps unGetNext_def recCompile_switch_def close_while_def patch_loop_def Let_def
        backFill.simps shl_small)


lemma loop_body_turns:
  "\<exists>bfk sk. recCompile_turns 3 2 1 2 0 loop_body = Some (8, 1, bfk, sk) \<and>
            mimem sk 4 = BREAK \<and> mimem sk 6 = CONTINUE \<and> recCompile_turn 8 1 2 bfk sk = None"
  by (simp add: numeral_3_eq_3 recCompile_turn_def loop_body_def recCompile_loop.simps next_word_def
        getNext_def accepted_def run_length.simps unGetNext_def recCompile_switch_def Let_def
        shl_small)

text \<open>
  C8. \<open>recCompile(mimem, fin, cp, cp, NULL)\<close> is the call that the cases \<open>[\<close> and \<open>{\<close> make
  for the body of a loop; it returns the index \<open>np\<close> behind the closing word. Take the loop
  of that call after any number \<open>k\<close> of turns, each of them a word of the body or a whole
  nested construct, and an index \<open>i\<close> of the body compiled so far (\<open>cp \<le> i < cpk\<close>), not
  more than \<open>2 ^ 23\<close> words before \<open>np\<close>. If the memory then holds a break at \<open>i\<close>, as it
  does for one in the body itself and for one that an if nested in the body has left
  there, the memory that the call returns holds at \<open>i\<close> the jump \<open>|\<close> with distance
  \<open>np - i - 1\<close>, and a thread that dispatches it goes on at \<open>np\<close>, the index behind the
  loop. For a continue the distance is \<open>np - i - 2\<close> and the thread goes on at \<open>np - 1\<close>,
  where the closing \<open>]\<close> or \<open>}\<close> stands. Every other word of the body is returned as it
  was, so that no break and no continue is left in \<open>cp .. np - 1\<close>. The turn that returns
  is the one that reads the closing word: before it the whole body, \<open>cp .. np - 2\<close>, is
  compiled.
\<close>

theorem breaks_are_back_filled:
  assumes "recCompile cp cp s = (np, f, s')" and "np \<noteq> BAD" and "0 < cp"
    and "mimem s (cp - 1) = ord CHR ''['' \<or> mimem s (cp - 1) = ord CHR ''{''"
    and "recCompile_turns k cp (cp - 1) cp 0 s = Some (cpk, opk, bfk, sk)"
    and "cp \<le> i" and "i < cpk" and "np - i \<le> 2 ^ 23"
  shows "(mimem sk i = BREAK \<longrightarrow>
            mimem s' i = ord CHR ''|'' OR push_bit SHIFT (np - i - 1) \<and>
            (\<forall>st me cost quanta.
               pc me = i \<and> Gimem st i = mimem s' i \<longrightarrow>
               dispatch cost quanta me st = Some (Next cost, me\<lparr>pc := np\<rparr>, st)))
         \<and> (mimem sk i = CONTINUE \<longrightarrow>
            mimem s' i = ord CHR ''|'' OR push_bit SHIFT (np - i - 2) \<and>
            (\<forall>st me cost quanta.
               pc me = i \<and> Gimem st i = mimem s' i \<longrightarrow>
               dispatch cost quanta me st = Some (Next cost, me\<lparr>pc := np - 1\<rparr>, st)))
         \<and> (mimem sk i \<noteq> BREAK \<and> mimem sk i \<noteq> CONTINUE \<longrightarrow> mimem s' i = mimem sk i)
         \<and> (mimem s' (np - 1) = ord CHR '']'' \<or> mimem s' (np - 1) = ord CHR ''}'')
         \<and> \<not> unresolved (mimem s') cp np
         \<and> (recCompile_turn cpk opk cp bfk sk = None \<longrightarrow> np = cpk + 1)"
proof -
  have fl: "flagged cp cp (cp - 1) cp 0 (mimem s)"
    using assms(3,4) by (auto simp: flagged_def opened_def unresolved_iff)
  from recCompile_turns_flagged [OF assms(5) fl assms(4)] assms(1)
  have fk: "flagged cp cpk (cp - 1) cp bfk (mimem sk)" and ok: "opk = cp - 1"
    and mk: "mimem sk (cp - 1) = ord CHR ''['' \<or> mimem sk (cp - 1) = ord CHR ''{''"
    and rk: "recCompile_loop cpk (cp - 1) cp bfk sk = (np, f, s')"
    using assms(4) by (simp_all add: recCompile_def)
  from recCompile_loop_closed [OF rk assms(2) fk] mk
  have le: "cpk \<le> np"
    and fill: "\<And>j. cp \<le> j \<Longrightarrow> j < cpk \<Longrightarrow> mimem s' j = filled np j (mimem sk j)"
    and last: "mimem s' (np - 1) = ord CHR '']'' \<or> mimem s' (np - 1) = ord CHR ''}''"
    and none: "\<not> unresolved (mimem s') cp np"
    by (auto simp: closed_def)
  from assms(7,8) le have b1: "- (2 ^ 23) \<le> np - i - 1" "np - i - 1 < 2 ^ 23"
    and b2: "- (2 ^ 23) \<le> np - i - 2" "np - i - 2 < 2 ^ 23"
    by simp_all
  have 1: "mimem s' i = ord CHR ''|'' OR push_bit SHIFT (np - i - 1) \<and>
            (\<forall>st me cost quanta.
               pc me = i \<and> Gimem st i = mimem s' i \<longrightarrow>
               dispatch cost quanta me st = Some (Next cost, me\<lparr>pc := np\<rparr>, st))"
    if "mimem sk i = BREAK"
  proof -
    from fill [OF assms(6,7)] that have w: "mimem s' i = ord CHR ''|'' OR shl (np - i - 1) SHIFT"
      by (simp add: filled_def)
    have "dispatch cost quanta me st = Some (Next cost, me\<lparr>pc := np\<rparr>, st)"
      if "pc me = i \<and> Gimem st i = mimem s' i" for st me cost quanta
      using jump_lands [of st me "np - i - 1" cost quanta] that w b1 by simp
    with w b1 show ?thesis by (simp add: shl_small)
  qed
  have 2: "mimem s' i = ord CHR ''|'' OR push_bit SHIFT (np - i - 2) \<and>
            (\<forall>st me cost quanta.
               pc me = i \<and> Gimem st i = mimem s' i \<longrightarrow>
               dispatch cost quanta me st = Some (Next cost, me\<lparr>pc := np - 1\<rparr>, st))"
    if "mimem sk i = CONTINUE"
  proof -
    from fill [OF assms(6,7)] that have w: "mimem s' i = ord CHR ''|'' OR shl (np - i - 2) SHIFT"
      by (simp add: filled_def)
    have "dispatch cost quanta me st = Some (Next cost, me\<lparr>pc := np - 1\<rparr>, st)"
      if "pc me = i \<and> Gimem st i = mimem s' i" for st me cost quanta
      using jump_lands [of st me "np - i - 2" cost quanta] that w b2 by simp
    with w b2 show ?thesis by (simp add: shl_small)
  qed
  have 3: "mimem s' i = mimem sk i" if "mimem sk i \<noteq> BREAK \<and> mimem sk i \<noteq> CONTINUE"
    using fill [OF assms(6,7)] that by (simp add: filled_def)
  have 4: "np = cpk + 1" if "recCompile_turn cpk opk cp bfk sk = None"
  proof -
    from recCompile_loop_last_turn [OF that [unfolded ok] rk assms(2)]
    obtain cc rl t where nw: "next_word cpk sk = (cc, rl, t)"
      and sw: "recCompile_switch cc rl (cpk + 1) (cp - 1) cp bfk t = Return np f s'"
      by blast
    from next_word_word [OF nw] fk have "mimem t (cp - 1) = mimem sk (cp - 1)"
      by (auto simp: flagged_def)
    with switch_Return_cases [OF sw assms(2)] mk assms(3) show ?thesis by auto
  qed
  from 1 2 3 4 last none show ?thesis by blast
qed

theorem breaks_are_back_filled_witness:
  "(case recCompile 2 2 loop_body of
      (np, f, s') \<Rightarrow>
        (case recCompile_turns 3 2 1 2 0 loop_body of
           None \<Rightarrow> False
         | Some (cpk, opk, bfk, sk) \<Rightarrow>
             np = 9 \<and> cpk = 8 \<and> mimem loop_body (2 - 1) = ord CHR ''['' \<and>
             mimem sk 4 = BREAK \<and> mimem sk 6 = CONTINUE \<and>
             mimem s' 4 = ord CHR ''|'' OR push_bit SHIFT (np - 4 - 1) \<and>
             mimem s' 6 = ord CHR ''|'' OR push_bit SHIFT (np - 6 - 2) \<and>
             dispatch 1 0 (boot_thread\<lparr>pc := 4\<rparr>) (boot_machine\<lparr>Gimem := mimem s'\<rparr>)
               = Some (Next 1, boot_thread\<lparr>pc := np\<rparr>, boot_machine\<lparr>Gimem := mimem s'\<rparr>) \<and>
             dispatch 1 0 (boot_thread\<lparr>pc := 6\<rparr>) (boot_machine\<lparr>Gimem := mimem s'\<rparr>)
               = Some (Next 1, boot_thread\<lparr>pc := np - 1\<rparr>, boot_machine\<lparr>Gimem := mimem s'\<rparr>) \<and>
             recCompile_turn cpk opk 2 bfk sk = None))"
proof -
  obtain np f s' where e: "recCompile 2 2 loop_body = (np, f, s')"
    by (cases "recCompile 2 2 loop_body")
  with loop_body_compiled have v: "np = 9" by simp
  from loop_body_turns obtain bfk sk
    where t: "recCompile_turns 3 2 (2 - 1) 2 0 loop_body = Some (8, 1, bfk, sk)"
      and k: "mimem sk 4 = BREAK" "mimem sk 6 = CONTINUE" "recCompile_turn 8 1 2 bfk sk = None"
    by auto
  have h: "mimem loop_body (2 - 1) = ord CHR ''['' \<or> mimem loop_body (2 - 1) = ord CHR ''{''"
    by (simp add: loop_body_def)
  from breaks_are_back_filled [OF e _ _ h t, of 4] k(1) v
  have b: "mimem s' 4 = ord CHR ''|'' OR push_bit SHIFT (9 - 4 - 1)"
    "\<And>st me cost quanta. pc me = 4 \<and> Gimem st 4 = mimem s' 4 \<Longrightarrow>
        dispatch cost quanta me st = Some (Next cost, me\<lparr>pc := 9\<rparr>, st)"
    by simp_all
  from breaks_are_back_filled [OF e _ _ h t, of 6] k(2) v
  have c: "mimem s' 6 = ord CHR ''|'' OR push_bit SHIFT (9 - 6 - 2)"
    "\<And>st me cost quanta. pc me = 6 \<and> Gimem st 6 = mimem s' 6 \<Longrightarrow>
        dispatch cost quanta me st = Some (Next cost, me\<lparr>pc := 9 - 1\<rparr>, st)"
    by simp_all
  from b(2) [of "boot_thread\<lparr>pc := 4\<rparr>" "boot_machine\<lparr>Gimem := mimem s'\<rparr>" 1 0]
       c(2) [of "boot_thread\<lparr>pc := 6\<rparr>" "boot_machine\<lparr>Gimem := mimem s'\<rparr>" 1 0]
       b(1) c(1) e v t k
  show ?thesis by (simp add: loop_body_def)
qed

section \<open>Programs of one file and the system segment\<close>

text \<open>
  What the loop of \<open>main\<close> does with a file that it has opened, up to the return of
  \<open>execute\<close>: compile, and if that succeeds clear the system segment and run. The message
  for a file that does not compile goes to \<open>stderr\<close> and is left out.
\<close>

definition main_file :: "int list \<Rightarrow> int \<Rightarrow> machine \<Rightarrow> machine option" where
  "main_file file quantum st =
     (case Compile file st of
        None \<Rightarrow> None
      | Some (r, st1) \<Rightarrow>
          if r \<noteq> 0
          then execute quantum
                 (st1\<lparr>mem := (mem st1)(Gsmem := (\<lambda>i. if 0 \<le> i \<and> i < DMEM then 0 else mem st1 Gsmem i))\<rparr>)
          else Some st1)"

text \<open>The machine when \<open>main\<close> starts, with the process scheduler that is the default.\<close>

definition start_machine :: machine where
  "start_machine =
     \<lparr>pListHead = [], tListHead = [], dpListHead = [], sListHead = [],
      PCBs = Map.empty, Gimem = (\<lambda>i. 0), mem = (\<lambda>m i. 0), scheduler = SCHEDULE_PROCESS, lp = None,
      useIn = [], stdout = [], malloc_ok = (\<lambda>k. True), malloc_calls = 0, live = [],
      fresh_TCB = (\<lambda>k. boot_thread), fresh_null = (\<lambda>k. True), sizeof_ptr = 8,
      char_signed = True, rand_values = (\<lambda>k. 0), rand_calls = 0\<rparr>"

text \<open>The file \<open>~+++@~.\<close>: the first program writes 3 to cell 0 of the system segment, the
  second program writes that cell to the output.\<close>

definition sentinel_source :: source where
  "sentinel_source =
     \<lparr>mimem = Gimem start_machine, fin = map ord ''~+++@~.'', feof = False, getNext_done = BAD\<rparr>"

lemma sentinel_program:
  "(case recCompile 0 BAD sentinel_source of (np, f, s1) \<Rightarrow> (np, mimem s1 2)) = (3, ord CHR ''@'')"
  by (simp add: sentinel_source_def start_machine_def recCompile_def recCompile_loop.simps
        next_word_def getNext_def accepted_def run_length.simps unGetNext_def
        recCompile_switch_def Let_def shl_small)

lemma sentinel_compiled:
  "map_option (\<lambda>(r, st). (r, pListHead st, map (Gimem st) [0, 1, 2, 3, 4, 5]))
     (Compile (map ord ''~+++@~.'') start_machine)
     = Some (1, [0, 3], [382, 811, 64, 382, 302, 64])"
  by (simp add: Compile_def Compile_loop.simps start_machine_def createProcess_def createThread_def
        malloc_def free_def schedule_def on_PCB_def appendList_def boot_thread_def
        recCompile_def recCompile_loop.simps next_word_def getNext_def accepted_def
        run_length.simps unGetNext_def recCompile_switch_def Let_def shl_small)

lemma sentinel_is_read:
  "map_option stdout (main_file (map ord ''~+++@~.'') 10 start_machine) = Some [Byte 3]
   \<and> map_option stdout (main_file (map ord ''+++@.'') 10 start_machine) = Some [Byte 0]"
  by (simp add: main_file_def execute_def execute_loop.simps getNextThread_def next_ready.simps
        deadLocked_def execute_switch_def makeDead_def doQuanta_def doQuanta_loop.simps dispatch_def
        peek_def poke_def
        Compile_def Compile_loop.simps start_machine_def createProcess_def createThread_def
        malloc_def free_def schedule_def on_PCB_def appendList_def boot_thread_def
        recCompile_def recCompile_loop.simps next_word_def getNext_def accepted_def
        run_length.simps unGetNext_def recCompile_switch_def Let_def shl_small)

lemma createProcess_primordial:
  assumes "malloc_ok st (malloc_calls st)" and "malloc_ok st (malloc_calls st + 1)"
    and "malloc_ok st (malloc_calls st + 2)"
    and "scheduler st = SCHEDULE_PROCESS \<longrightarrow> fresh_null st (malloc_calls st)"
  shows "\<exists>st1 P t.
           createProcess Gsmem (Some Gsmem) None cp 0 None STACKSIZE st = Some (0, st1) \<and>
           pListHead st1 = pListHead st @ [malloc_calls st] \<and>
           PCBs st1 (malloc_calls st) = Some P \<and>
           pmem P = Some Gsmem \<and> dmem P = Block (malloc_calls st + 1) \<and> threads P = 1 \<and>
           par t = malloc_calls st \<and> pc t = cp \<and> dp t = 0 \<and> cmem t = dmem P \<and>
           (if scheduler st = SCHEDULE_PROCESS then readyList P = [t]
            else tListHead st1 = tListHead st @ [t])"
  using assms
  by (simp add: createProcess_def createThread_def malloc_def schedule_def on_PCB_def
        appendList_def Let_def)

lemma Compile_turn:
  assumes "\<not> feof s"
    and "createProcess Gsmem (Some Gsmem) None cp 0 None STACKSIZE st = Some (0, st1)"
  shows "Compile_loop cp s st =
           (case recCompile cp BAD s of
              (np, f, s1) \<Rightarrow>
                if np = BAD then Some (0, s1, st1)
                else if mimem s1 (np - 1) = ord CHR ''!''
                then Some (1, s1\<lparr>mimem := (mimem s1)(np - 1 := ord CHR ''@'')\<rparr>,
                           st1\<lparr>useIn := map word_of_int (fin s1)\<rparr>)
                else Compile_loop np s1 st1)"
  using assms by (subst Compile_loop.simps) simp

lemma swap_to_system_segment:
  assumes "PCBs m (par u) = Some U" and "pmem U = Some Gsmem" and "dmem U = Block d"
    and "cmem u = Block d" and "Gimem m (pc u) AND IMASK = ord CHR ''~''"
  shows "dispatch cost quanta u m = Some (Next cost, u\<lparr>pc := pc u + 1, cmem := Gsmem\<rparr>, m)"
  using assms by (simp add: dispatch_def Let_def)

lemma write_is_read:
  assumes "cmem w = Gsmem" and "cmem r = Gsmem" and "dp r = dp w"
    and "Gimem m (pc w) = ord CHR ''+'' OR push_bit SHIFT n"
    and "Gimem m (pc r) = ord CHR ''.'' OR push_bit SHIFT 1"
  shows "\<exists>m'. dispatch cost quanta w m = Some (Next cost, w\<lparr>pc := pc w + 1\<rparr>, m') \<and>
              peek m' Gsmem (dp w) = peek m Gsmem (dp w) + word_of_int n \<and>
              dispatch cost quanta r m'
                = Some (Next cost, r\<lparr>pc := pc r + 1\<rparr>,
                        m'\<lparr>stdout := stdout m' @ [Byte (peek m Gsmem (dp w) + word_of_int n)]\<rparr>)"
proof -
  from assms(4) have w: "Gimem m (pc w) AND IMASK = ord CHR ''+''" "drop_bit SHIFT (Gimem m (pc w)) = n"
    using opcode_of_word [of 43 n] immediate_of_word [of 43 n] by simp_all
  from assms(5) have r: "Gimem m (pc r) AND IMASK = ord CHR ''.''" "drop_bit SHIFT (Gimem m (pc r)) = 1"
    using opcode_of_word [of 46 1] immediate_of_word [of 46 1] by simp_all
  let ?m' = "poke Gsmem (dp w) (peek m Gsmem (dp w) + word_of_int n) m"
  have 1: "dispatch cost quanta w m = Some (Next cost, w\<lparr>pc := pc w + 1\<rparr>, ?m')"
    using w assms(1) by (simp add: dispatch_def Let_def)
  have g: "Gimem ?m' = Gimem m" by (simp add: poke_def)
  have 2: "dispatch cost quanta r ?m'
             = Some (Next cost, r\<lparr>pc := pc r + 1\<rparr>,
                     ?m'\<lparr>stdout := stdout ?m' @ [Byte (peek m Gsmem (dp w) + word_of_int n)]\<rparr>)"
    using r assms(2,3) g by (simp add: dispatch_def Let_def peek_poke)
  from 1 2 show ?thesis by (simp add: peek_poke)
qed

text \<open>The processes on the process list are primordial: each is a block that \<open>malloc\<close> has
  returned, and its parent segment is the system segment.\<close>

definition primordial :: "machine \<Rightarrow> bool" where
  "primordial st \<longleftrightarrow>
     list_all (\<lambda>c. c < malloc_calls st \<and>
                   (case PCBs st c of None \<Rightarrow> False | Some P \<Rightarrow> pmem P = Some Gsmem))
       (pListHead st)"

lemma createProcess_lists:
  assumes "createProcess copymem npmem nprocs npc ndp ns nsp st = Some (r, st')"
  shows "malloc_calls st \<le> malloc_calls st' \<and>
         (\<forall>c. c \<noteq> malloc_calls st \<longrightarrow> PCBs st' c = PCBs st c) \<and>
         (r \<noteq> 0 \<longrightarrow> pListHead st' = pListHead st) \<and>
         (r = 0 \<longrightarrow> pListHead st' = pListHead st @ [malloc_calls st] \<and>
                   malloc_calls st < malloc_calls st' \<and>
                   (\<exists>P. PCBs st' (malloc_calls st) = Some P \<and> pmem P = npmem))"
proof (cases "malloc_ok st (malloc_calls st)")
  case False
  with assms show ?thesis by (auto simp: createProcess_def malloc_def Let_def)
next
  case a: True
  show ?thesis
  proof (cases "malloc_ok st (malloc_calls st + 1)")
    case False
    with assms a show ?thesis by (auto simp: createProcess_def malloc_def free_def Let_def)
  next
    case b: True
    show ?thesis
    proof (cases "malloc_ok st (malloc_calls st + 2)")
      case False
      with assms a b show ?thesis
        by (auto simp: createProcess_def createThread_def malloc_def free_def Let_def)
    next
      case True
      with assms a b show ?thesis
        by (auto simp: createProcess_def createThread_def malloc_def schedule_def on_PCB_def
              appendList_def Let_def split: if_splits)
    qed
  qed
qed

lemma createProcess_keeps_primordial:
  assumes "createProcess copymem (Some Gsmem) nprocs npc ndp ns nsp st = Some (r, st')"
    and "primordial st"
  shows "primordial st'"
proof -
  note l = createProcess_lists [OF assms(1)]
  have old: "c < malloc_calls st' \<and> (case PCBs st' c of None \<Rightarrow> False | Some P \<Rightarrow> pmem P = Some Gsmem)"
    if "c \<in> set (pListHead st)" for c
  proof -
    from that assms(2) have c: "c < malloc_calls st"
      "case PCBs st c of None \<Rightarrow> False | Some P \<Rightarrow> pmem P = Some Gsmem"
      by (auto simp: primordial_def list_all_iff)
    with l have "PCBs st' c = PCBs st c" by auto
    with c l show ?thesis by auto
  qed
  show ?thesis
  proof (cases "r = 0")
    case True
    with l old show ?thesis by (auto simp: primordial_def list_all_iff)
  next
    case False
    with l old show ?thesis by (auto simp: primordial_def list_all_iff)
  qed
qed

lemma Compile_loop_keeps_primordial:
  "Compile_loop cp s st = Some y \<Longrightarrow> primordial st \<Longrightarrow> primordial (snd (snd y))"
proof (induction rule: Compile_loop.raw_induct [rotated, consumes 1])
  case (1 loop c t m z)
  show ?case
  proof (cases "feof t")
    case True
    with 1(2) have "z = (1, t, m)" by simp
    with 1(3) show ?thesis by simp
  next
    case False
    with 1(2) obtain r st1
      where c: "createProcess Gsmem (Some Gsmem) None c 0 None STACKSIZE m = Some (r, st1)"
      by (auto split: option.splits)
    from 1(3) have pm: "primordial m" .
    from createProcess_keeps_primordial [OF c pm] have p1: "primordial st1" .
    define st2 where "st2 = (if r \<noteq> 0 then st1\<lparr>stdout := stdout st1 @ [NoMemForProcess]\<rparr> else st1)"
    from p1 have p2: "primordial st2" by (simp add: st2_def primordial_def)
    obtain np f s1 where rc: "recCompile c BAD t = (np, f, s1)" by (cases "recCompile c BAD t")
    from 1(2) False c rc
    have e: "(if np = BAD then Some (0, s1, st2)
              else if mimem s1 (np - 1) = ord CHR ''!''
              then Some (1, s1\<lparr>mimem := (mimem s1)(np - 1 := ord CHR ''@'')\<rparr>,
                         st2\<lparr>useIn := map word_of_int (fin s1)\<rparr>)
              else loop np s1 st2) = Some z"
      by (auto simp: st2_def Let_def split: if_splits)
    show ?thesis
    proof (cases "np = BAD \<or> mimem s1 (np - 1) = ord CHR ''!''")
      case True
      with e p2 show ?thesis by (auto simp: primordial_def split: if_splits)
    next
      case False
      with e have "loop np s1 st2 = Some z" by simp
      from 1(1) [OF this p2] show ?thesis .
    qed
  qed
qed

lemma Compile_keeps_primordial:
  "Compile file st = Some (r, st') \<Longrightarrow> primordial st \<Longrightarrow> primordial st'"
  using Compile_loop_keeps_primordial
          [of 0 "\<lparr>mimem = Gimem st, fin = file, feof = False, getNext_done = BAD\<rparr>" st]
  by (auto simp: Compile_def primordial_def split: option.splits)

text \<open>
  C4. Every turn of the loop of \<open>Compile\<close> (one turn for each program of the file, a program
  ending at its \<open>@\<close>) creates a primordial process when the three allocations succeed: a
  block appended to the process list whose parent segment is the system segment \<open>Gsmem\<close>,
  with one thread that starts at the first word of the program on the data segment of the
  process. A thread of such a process that runs \<open>~\<close> on its own data segment has the system
  segment as its current segment afterwards, whichever process it belongs to. When a thread
  on the system segment adds \<open>n\<close> to a cell and a thread on the system segment then writes
  the cell at the same index to the output, the byte written out is the cell of the first
  thread after its addition. Every process on the process list when \<open>Compile\<close> returns has
  the system segment as its parent segment, if those on the list before had. The file
  \<open>~+++@~.\<close> is run in lemma \<open>sentinel_is_read\<close>: the output is the byte 3.
\<close>

theorem programs_share_the_system_segment:
  assumes "\<not> feof s"
    and "malloc_ok st (malloc_calls st)" and "malloc_ok st (malloc_calls st + 1)"
    and "malloc_ok st (malloc_calls st + 2)"
    and "scheduler st = SCHEDULE_PROCESS \<longrightarrow> fresh_null st (malloc_calls st)"
  shows "(\<exists>st1 P t.
            Compile_loop cp s st =
              (case recCompile cp BAD s of
                 (np, f, s1) \<Rightarrow>
                   if np = BAD then Some (0, s1, st1)
                   else if mimem s1 (np - 1) = ord CHR ''!''
                   then Some (1, s1\<lparr>mimem := (mimem s1)(np - 1 := ord CHR ''@'')\<rparr>,
                              st1\<lparr>useIn := map word_of_int (fin s1)\<rparr>)
                   else Compile_loop np s1 st1) \<and>
            pListHead st1 = pListHead st @ [malloc_calls st] \<and>
            PCBs st1 (malloc_calls st) = Some P \<and>
            pmem P = Some Gsmem \<and> dmem P = Block (malloc_calls st + 1) \<and> threads P = 1 \<and>
            par t = malloc_calls st \<and> pc t = cp \<and> dp t = 0 \<and> cmem t = dmem P \<and>
            (if scheduler st = SCHEDULE_PROCESS then readyList P = [t]
             else tListHead st1 = tListHead st @ [t]))
         \<and> (\<forall>m u U d cost quanta.
               PCBs m (par u) = Some U \<and> pmem U = Some Gsmem \<and> dmem U = Block d \<and>
               cmem u = Block d \<and> Gimem m (pc u) AND IMASK = ord CHR ''~'' \<longrightarrow>
               dispatch cost quanta u m = Some (Next cost, u\<lparr>pc := pc u + 1, cmem := Gsmem\<rparr>, m))
         \<and> (\<forall>m w r n cost quanta.
               cmem w = Gsmem \<and> cmem r = Gsmem \<and> dp r = dp w \<and>
               Gimem m (pc w) = ord CHR ''+'' OR push_bit SHIFT n \<and>
               Gimem m (pc r) = ord CHR ''.'' OR push_bit SHIFT 1 \<longrightarrow>
               (\<exists>m'. dispatch cost quanta w m = Some (Next cost, w\<lparr>pc := pc w + 1\<rparr>, m') \<and>
                     peek m' Gsmem (dp w) = peek m Gsmem (dp w) + word_of_int n \<and>
                     dispatch cost quanta r m'
                       = Some (Next cost, r\<lparr>pc := pc r + 1\<rparr>,
                               m'\<lparr>stdout := stdout m' @
                                    [Byte (peek m Gsmem (dp w) + word_of_int n)]\<rparr>)))
         \<and> (\<forall>inp m r m'. Compile inp m = Some (r, m') \<and> primordial m \<longrightarrow> primordial m')"
proof -
  have 4: "primordial m'" if "Compile inp m = Some (r, m') \<and> primordial m" for inp m r m'
    using that Compile_keeps_primordial by blast
  from createProcess_primordial [OF assms(2-5), of cp] obtain st1 P t
    where c: "createProcess Gsmem (Some Gsmem) None cp 0 None STACKSIZE st = Some (0, st1)"
      and p: "pListHead st1 = pListHead st @ [malloc_calls st]"
        "PCBs st1 (malloc_calls st) = Some P"
        "pmem P = Some Gsmem" "dmem P = Block (malloc_calls st + 1)" "threads P = 1"
        "par t = malloc_calls st" "pc t = cp" "dp t = 0" "cmem t = dmem P"
        "if scheduler st = SCHEDULE_PROCESS then readyList P = [t]
         else tListHead st1 = tListHead st @ [t]"
    by blast
  note 1 = Compile_turn [OF assms(1) c]
  have 2: "dispatch cost quanta u m = Some (Next cost, u\<lparr>pc := pc u + 1, cmem := Gsmem\<rparr>, m)"
    if "PCBs m (par u) = Some U \<and> pmem U = Some Gsmem \<and> dmem U = Block d \<and>
        cmem u = Block d \<and> Gimem m (pc u) AND IMASK = ord CHR ''~''"
    for m u U d cost quanta
    using that by (intro swap_to_system_segment [of m u U d]) simp_all
  have 3: "\<exists>m'. dispatch cost quanta w m = Some (Next cost, w\<lparr>pc := pc w + 1\<rparr>, m') \<and>
                     peek m' Gsmem (dp w) = peek m Gsmem (dp w) + word_of_int n \<and>
                     dispatch cost quanta r m'
                       = Some (Next cost, r\<lparr>pc := pc r + 1\<rparr>,
                               m'\<lparr>stdout := stdout m' @
                                    [Byte (peek m Gsmem (dp w) + word_of_int n)]\<rparr>)"
    if "cmem w = Gsmem \<and> cmem r = Gsmem \<and> dp r = dp w \<and>
        Gimem m (pc w) = ord CHR ''+'' OR push_bit SHIFT n \<and>
        Gimem m (pc r) = ord CHR ''.'' OR push_bit SHIFT 1"
    for m w r n cost quanta
    using that by (intro write_is_read) simp_all
  from 1 p have "\<exists>st1 P t.
            Compile_loop cp s st =
              (case recCompile cp BAD s of
                 (np, f, s1) \<Rightarrow>
                   if np = BAD then Some (0, s1, st1)
                   else if mimem s1 (np - 1) = ord CHR ''!''
                   then Some (1, s1\<lparr>mimem := (mimem s1)(np - 1 := ord CHR ''@'')\<rparr>,
                              st1\<lparr>useIn := map word_of_int (fin s1)\<rparr>)
                   else Compile_loop np s1 st1) \<and>
            pListHead st1 = pListHead st @ [malloc_calls st] \<and>
            PCBs st1 (malloc_calls st) = Some P \<and>
            pmem P = Some Gsmem \<and> dmem P = Block (malloc_calls st + 1) \<and> threads P = 1 \<and>
            par t = malloc_calls st \<and> pc t = cp \<and> dp t = 0 \<and> cmem t = dmem P \<and>
            (if scheduler st = SCHEDULE_PROCESS then readyList P = [t]
             else tListHead st1 = tListHead st @ [t])"
    by blast
  with 2 3 4 show ?thesis by blast
qed

theorem programs_share_the_system_segment_witness:
  "\<not> feof sentinel_source \<and> malloc_ok start_machine 0 \<and> fresh_null start_machine 0
   \<and> primordial start_machine
   \<and> (case recCompile 0 BAD sentinel_source of
         (np, f, s1) \<Rightarrow>
           np = 3 \<and>
           (\<exists>st1 P t. Compile_loop 0 sentinel_source start_machine = Compile_loop np s1 st1 \<and>
                      pListHead st1 = [0] \<and> PCBs st1 0 = Some P \<and> pmem P = Some Gsmem \<and>
                      dmem P = Block 1 \<and> readyList P = [t] \<and> pc t = 0 \<and> cmem t = Block 1))
   \<and> (case Compile (map ord ''~+++@~.'') start_machine of
         None \<Rightarrow> False
       | Some (r, m') \<Rightarrow> r = 1 \<and> pListHead m' = [0, 3] \<and> primordial m')"
proof -
  obtain np f s1 where e: "recCompile 0 BAD sentinel_source = (np, f, s1)"
    by (cases "recCompile 0 BAD sentinel_source")
  with sentinel_program have v: "np = 3" "mimem s1 2 = ord CHR ''@''" by simp_all
  obtain r m' where c: "Compile (map ord ''~+++@~.'') start_machine = Some (r, m')"
    using sentinel_compiled by (cases "Compile (map ord ''~+++@~.'') start_machine") auto
  with sentinel_compiled have w: "r = 1" "pListHead m' = [0, 3]" by simp_all
  have h: "\<not> feof sentinel_source" "malloc_ok start_machine (malloc_calls start_machine)"
    "malloc_ok start_machine (malloc_calls start_machine + 1)"
    "malloc_ok start_machine (malloc_calls start_machine + 2)"
    "scheduler start_machine = SCHEDULE_PROCESS
       \<longrightarrow> fresh_null start_machine (malloc_calls start_machine)"
    and p: "primordial start_machine"
    by (simp_all add: sentinel_source_def start_machine_def primordial_def)
  note t = programs_share_the_system_segment [OF h, of 0]
  from t e v obtain st1 P u where
    "Compile_loop 0 sentinel_source start_machine = Compile_loop np s1 st1 \<and>
     pListHead st1 = [0] \<and> PCBs st1 0 = Some P \<and> pmem P = Some Gsmem \<and>
     dmem P = Block 1 \<and> readyList P = [u] \<and> pc u = 0 \<and> cmem u = Block 1"
    by (auto simp: start_machine_def)
  moreover from t c p have "primordial m'" by blast
  ultimately show ?thesis using e v c w h p by (auto simp: start_machine_def)
qed

end
